theory Spec2Isabelle
  imports Complex_Main
begin

section \<open>Shallow embedding of the three schedulers of \<^verbatim>\<open>ran_demo.py\<close>\<close>

text \<open>
  Conventions of the embedding.
  \<^item> Python floats are idealised as \<^typ>\<open>real\<close>; the one float value that is not a real
    number and that the simulators can return, numpy's \<^verbatim>\<open>nan\<close> (the mean of an empty
    list), is a constructor of its own in \<open>npfloat\<close>.
  \<^item> The numpy random generator is an external library.  It is a parameter of every
    function that draws from it: a record of the five library functions that the source
    calls, over an abstract generator state \<open>'g\<close> that is passed along explicitly in the
    order in which the source draws.
  \<^item> Exceptions are values of type \<open>py_error\<close>; a function that can raise returns a sum.
  \<^item> The dictionaries \<^verbatim>\<open>timeouts\<close>, \<^verbatim>\<open>total_packets\<close> and \<^verbatim>\<open>delays\<close> of \<^verbatim>\<open>simulate_das\<close>
    are created with one key per user id and are only ever indexed with the id of a user,
    so they are total functions on ids.  The dictionary \<^verbatim>\<open>priorities\<close> is iterated, so it is
    an association list in insertion order.
\<close>

subsection \<open>Library: floats, errors, random generator, list helpers\<close>

datatype npfloat = Float real | NaN

datatype py_error = ValueError | ZeroDivisionError

record 'g np_random =
  np_seed :: "int \<Rightarrow> 'g"
  np_rand :: "'g \<Rightarrow> real \<times> 'g"
  np_uniform :: "real \<Rightarrow> real \<Rightarrow> 'g \<Rightarrow> real \<times> 'g"
  np_normal :: "real \<Rightarrow> real \<Rightarrow> 'g \<Rightarrow> real \<times> 'g"
  np_randint :: "int \<Rightarrow> int \<Rightarrow> 'g \<Rightarrow> int \<times> 'g"

text \<open>\<^verbatim>\<open>np.mean(xs)\<close>: the arithmetic mean; \<^verbatim>\<open>nan\<close> (with a warning, no exception) on the
  empty list.\<close>

definition mean :: "real list \<Rightarrow> real" where
  "mean xs = sum_list xs / real (length xs)"

definition np_mean :: "real list \<Rightarrow> npfloat" where
  "np_mean xs = (if xs = [] then NaN else Float (mean xs))"

text \<open>\<^verbatim>\<open>xs[-50:]\<close>: the last 50 elements, all of them when there are fewer.\<close>

definition last50 :: "'a list \<Rightarrow> 'a list" where
  "last50 xs = drop (length xs - 50) xs"

text \<open>\<^verbatim>\<open>max(xs, key=f)\<close>: the first element whose key is maximal (a later element replaces
  the running best only when its key is strictly greater); \<^verbatim>\<open>ValueError\<close> on the empty
  list.  \<open>argmax_from\<close> returns the position of that element.\<close>

fun argmax_from :: "('a \<Rightarrow> real) \<Rightarrow> nat \<Rightarrow> 'a \<Rightarrow> nat \<Rightarrow> 'a list \<Rightarrow> nat" where
  "argmax_from key bi b i [] = bi"
| "argmax_from key bi b i (x # xs) =
     (if key x > key b then argmax_from key i x (Suc i) xs
      else argmax_from key bi b (Suc i) xs)"

definition py_argmax :: "('a \<Rightarrow> real) \<Rightarrow> 'a list \<Rightarrow> nat option" where
  "py_argmax key xs = (case xs of [] \<Rightarrow> None | x # ys \<Rightarrow> Some (argmax_from key 0 x 1 ys))"

text \<open>\<^verbatim>\<open>d[k] = v\<close> on an insertion-ordered dictionary: an existing key keeps its position.\<close>

fun dict_set :: "('k \<times> 'v) list \<Rightarrow> 'k \<Rightarrow> 'v \<Rightarrow> ('k \<times> 'v) list" where
  "dict_set [] k v = [(k, v)]"
| "dict_set ((k', v') # d) k v = (if k' = k then (k, v) # d else (k', v') # dict_set d k v)"

subsection \<open>Solution 1: delay-aware scheduling\<close>

record packet =
  remaining_time :: int
  pkt_size :: real

record User =
  user_id :: int
  service_type :: string
  instantaneous_rate :: real
  avg_throughput :: real
  packets :: "packet list"
  pdb :: int

record 'g das_state =
  users :: "User list"
  timeouts :: "int \<Rightarrow> nat"
  total_packets :: "int \<Rightarrow> nat"
  delays :: "int \<Rightarrow> int list"
  throughput_history :: "real list"
  rng :: 'g

record das_result =
  urllc_timeout_rate :: real
  avg_urllc_delay :: real
  das_avg_throughput :: real
  das_throughput_history :: "real list"

text \<open>Lines 31-46: one user per index, its channel metric drawn on creation.\<close>

definition new_user :: "int \<Rightarrow> real \<Rightarrow> User" where
  "new_user i r =
     (if i < 5 then
        \<lparr>user_id = i, service_type = ''URLLC'', instantaneous_rate = r,
         avg_throughput = 10, packets = [], pdb = 5\<rparr>
      else if i < 10 then
        \<lparr>user_id = i, service_type = ''eMBB'', instantaneous_rate = r,
         avg_throughput = 10, packets = [], pdb = 20\<rparr>
      else
        \<lparr>user_id = i, service_type = ''mMTC'', instantaneous_rate = r,
         avg_throughput = 10, packets = [], pdb = 50\<rparr>)"

fun init_users :: "'g np_random \<Rightarrow> int list \<Rightarrow> 'g \<Rightarrow> User list \<times> 'g" where
  "init_users R [] g = ([], g)"
| "init_users R (i # is) g =
     (case np_uniform R 5 20 g of (r, g1) \<Rightarrow>
      case init_users R is g1 of (us, g2) \<Rightarrow> (new_user i r # us, g2))"

definition das_init :: "'g np_random \<Rightarrow> int \<Rightarrow> 'g \<Rightarrow> 'g das_state" where
  "das_init R num_users g =
     (case init_users R [0..num_users - 1] g of (us, g') \<Rightarrow>
        \<lparr>users = us, timeouts = (\<lambda>_. 0), total_packets = (\<lambda>_. 0), delays = (\<lambda>_. []),
         throughput_history = [], rng = g'\<rparr>)"

text \<open>Lines 55-59: arrivals.\<close>

fun generate_packets ::
  "'g np_random \<Rightarrow> User list \<Rightarrow> (int \<Rightarrow> nat) \<Rightarrow> 'g \<Rightarrow> User list \<times> (int \<Rightarrow> nat) \<times> 'g" where
  "generate_packets R [] tp g = ([], tp, g)"
| "generate_packets R (u # us) tp g =
     (case np_rand R g of (r, g1) \<Rightarrow>
      if r < 0.3 then
        (case np_uniform R 1 5 g1 of (sz, g2) \<Rightarrow>
         case generate_packets R us (tp(user_id u := tp (user_id u) + 1)) g2 of
           (us', tp', g3) \<Rightarrow>
             (u\<lparr>packets := packets u @ [\<lparr>remaining_time = pdb u, pkt_size = sz\<rparr>]\<rparr> # us',
              tp', g3))
      else
        (case generate_packets R us tp g1 of (us', tp', g3) \<Rightarrow> (u # us', tp', g3)))"

text \<open>Lines 62-64: ageing.\<close>

definition age_packets :: "User list \<Rightarrow> User list" where
  "age_packets us =
     map (\<lambda>u. u\<lparr>packets := map (\<lambda>p. p\<lparr>remaining_time := remaining_time p - 1\<rparr>) (packets u)\<rparr>) us"

text \<open>Lines 69-79: the priority of one user.\<close>

definition w1_of :: "User \<Rightarrow> real" where
  "w1_of u =
     (let total_buffer = (if packets u \<noteq> [] then sum_list (map pkt_size (packets u)) else 0) in
      if total_buffer > 0 then
        foldl (\<lambda>w p. if remaining_time p > 0
                 then w + (pkt_size p / total_buffer)
                          * max 0 (1 - real_of_int (remaining_time p) / real_of_int (pdb u))
                 else w) 0 (packets u)
      else 0)"

definition w2_of :: "User \<Rightarrow> real" where
  "w2_of u = instantaneous_rate u / max (avg_throughput u) 0.001"

definition priority :: "real \<Rightarrow> User \<Rightarrow> real" where
  "priority beta u = beta * w1_of u + (1 - beta) * w2_of u"

definition compute_priorities :: "real \<Rightarrow> User list \<Rightarrow> (int \<times> real) list" where
  "compute_priorities beta us = foldl (\<lambda>d u. dict_set d (user_id u) (priority beta u)) [] us"

text \<open>Line 84: \<^verbatim>\<open>max(priorities, key=priorities.get)\<close>, the first key of maximal value;
  the guard \<^verbatim>\<open>if priorities\<close> of line 83 is the \<open>None\<close> case.\<close>

definition select_user_id :: "(int \<times> real) list \<Rightarrow> int option" where
  "select_user_id d = (case py_argmax snd d of None \<Rightarrow> None | Some i \<Rightarrow> Some (fst (d ! i)))"

text \<open>Line 85: \<^verbatim>\<open>next(u for u in users if u.id == selected_user_id)\<close>, as the position of
  the first such user.\<close>

fun find_user :: "int \<Rightarrow> User list \<Rightarrow> nat option" where
  "find_user k [] = None"
| "find_user k (u # us) =
     (if user_id u = k then Some 0
      else case find_user k us of None \<Rightarrow> None | Some i \<Rightarrow> Some (Suc i))"

text \<open>Lines 82-93: serve the head-of-queue packet of the selected user.  The result is
  the users, the \<^verbatim>\<open>delays\<close> dictionary and \<^verbatim>\<open>transmitted_bytes\<close>.  The selected id is a key
  of \<^verbatim>\<open>priorities\<close>, hence the id of a user (lemma \<open>select_user_id_found\<close> below), so
  \<^verbatim>\<open>next\<close> always finds one; the \<open>None\<close> branch of \<open>find_user\<close> is never taken.\<close>

definition select_and_serve ::
  "real \<Rightarrow> User list \<Rightarrow> (int \<Rightarrow> int list) \<Rightarrow> User list \<times> (int \<Rightarrow> int list) \<times> real" where
  "select_and_serve beta us dl =
     (case select_user_id (compute_priorities beta us) of
        None \<Rightarrow> (us, dl, 0)
      | Some k \<Rightarrow>
          (case find_user k us of
             None \<Rightarrow> (us, dl, 0)
           | Some i \<Rightarrow>
               (let su = us ! i in
                case packets su of
                  [] \<Rightarrow> (us, dl, 0)
                | p # ps \<Rightarrow>
                    (us[i := su\<lparr>packets := ps,
                                avg_throughput := 0.9 * avg_throughput su + 0.1 * pkt_size p\<rparr>],
                     dl(user_id su := dl (user_id su) @ [pdb su - remaining_time p]),
                     0 + pkt_size p))))"

text \<open>Lines 96-99: the timeout sweep.\<close>

fun check_timeouts :: "User list \<Rightarrow> (int \<Rightarrow> nat) \<Rightarrow> User list \<times> (int \<Rightarrow> nat)" where
  "check_timeouts [] tmo = ([], tmo)"
| "check_timeouts (u # us) tmo =
     (let expired = filter (\<lambda>p. remaining_time p \<le> 0) (packets u) in
      case check_timeouts us (tmo(user_id u := tmo (user_id u) + length expired)) of
        (us', tmo') \<Rightarrow>
          (u\<lparr>packets := filter (\<lambda>p. remaining_time p > 0) (packets u)\<rparr> # us', tmo'))"

text \<open>Lines 105-106: channel evolution.\<close>

fun update_channels :: "'g np_random \<Rightarrow> User list \<Rightarrow> 'g \<Rightarrow> User list \<times> 'g" where
  "update_channels R [] g = ([], g)"
| "update_channels R (u # us) g =
     (case np_normal R 0 2 g of (z, g1) \<Rightarrow>
      case update_channels R us g1 of (us', g2) \<Rightarrow>
        (u\<lparr>instantaneous_rate := max 1 (instantaneous_rate u + z)\<rparr> # us', g2))"

text \<open>Lines 53-106: one slot.\<close>

definition das_slot :: "'g np_random \<Rightarrow> real \<Rightarrow> 'g das_state \<Rightarrow> 'g das_state" where
  "das_slot R beta s =
     (case generate_packets R (users s) (total_packets s) (rng s) of (us1, tp, g1) \<Rightarrow>
      case select_and_serve beta (age_packets us1) (delays s) of (us2, dl, transmitted_bytes) \<Rightarrow>
      case check_timeouts us2 (timeouts s) of (us3, tmo) \<Rightarrow>
      case update_channels R us3 g1 of (us4, g2) \<Rightarrow>
        \<lparr>users = us4, timeouts = tmo, total_packets = tp, delays = dl,
         throughput_history = throughput_history s @ [transmitted_bytes], rng = g2\<rparr>)"

text \<open>The state after \<open>n\<close> iterations of the loop of line 53.\<close>

primrec das_run :: "'g np_random \<Rightarrow> real \<Rightarrow> nat \<Rightarrow> 'g das_state \<Rightarrow> 'g das_state" where
  "das_run R beta 0 s = s"
| "das_run R beta (Suc n) s = das_slot R beta (das_run R beta n s)"

text \<open>Lines 108-117: the aggregates.\<close>

definition urllc_users :: "User list \<Rightarrow> User list" where
  "urllc_users us = filter (\<lambda>u. service_type u = ''URLLC'') us"

definition das_finish :: "'g das_state \<Rightarrow> das_result" where
  "das_finish s =
     (let uu = urllc_users (users s);
          ds = concat (map (\<lambda>u. delays s (user_id u)) uu) in
      \<lparr>urllc_timeout_rate =
         real (sum_list (map (\<lambda>u. timeouts s (user_id u)) uu))
           / real (max (sum_list (map (\<lambda>u. total_packets s (user_id u)) uu)) 1) * 100,
       avg_urllc_delay =
         (if list_ex (\<lambda>u. delays s (user_id u) \<noteq> []) uu then mean (map real_of_int ds) else 0),
       das_avg_throughput =
         (if throughput_history s \<noteq> [] then mean (throughput_history s) else 0),
       das_throughput_history = last50 (throughput_history s)\<rparr>)"

text \<open>Lines 23-117.  \<open>g\<close> is the state of the global generator when the call starts; the
  result is paired with the generator state the call leaves behind.  A seed is assumed to
  be one that \<^verbatim>\<open>np.random.seed\<close> accepts.  Python's own \<^verbatim>\<open>random\<close> module is seeded as well
  but never drawn from.  \<^verbatim>\<open>range(n)\<close> is empty for \<open>n \<le> 0\<close>, which is \<open>nat n = 0\<close>.\<close>

definition simulate_das ::
  "'g np_random \<Rightarrow> real \<Rightarrow> int \<Rightarrow> int \<Rightarrow> int option \<Rightarrow> 'g \<Rightarrow> das_result \<times> 'g" where
  "simulate_das R beta num_slots num_users seed g =
     (let g0 = (case seed of None \<Rightarrow> g | Some sd \<Rightarrow> np_seed R sd);
          s = das_run R beta (nat num_slots) (das_init R num_users g0)
      in (das_finish s, rng s))"

text \<open>Lines 120-121.\<close>

definition simulate_pf :: "'g np_random \<Rightarrow> int \<Rightarrow> int \<Rightarrow> int option \<Rightarrow> 'g \<Rightarrow> das_result \<times> 'g" where
  "simulate_pf R num_slots num_users seed g = simulate_das R 0 num_slots num_users seed g"

subsection \<open>Solution 2: opportunistic scheduling with CSI smoothing\<close>

text \<open>The user dictionaries of lines 132-141.  The key \<^verbatim>\<open>metric\<close> is added by line 161,
  for every user, before line 164 reads it; it is a field from the start here.\<close>

record csi_user =
  csi_id :: int
  mobility :: string
  true_cqi :: real
  reported_cqi :: real
  smoothed_cqi :: real
  csi_avg_throughput :: real
  retransmissions :: nat
  successful_tx :: nat
  metric :: real

record 'g csi_state =
  csi_users :: "csi_user list"
  spectral_efficiency :: "real list"
  retransmission_rates :: "real list"
  csi_rng :: 'g

record csi_result =
  csi_spectral_efficiency :: npfloat
  csi_retransmission_rate :: npfloat
  se_history :: "real list"
  retrans_history :: "real list"

definition new_csi_user :: "int \<Rightarrow> csi_user" where
  "new_csi_user i =
     \<lparr>csi_id = i, mobility = (if i < 5 then ''high'' else ''low''), true_cqi = 10,
      reported_cqi = 10, smoothed_cqi = 10, csi_avg_throughput = 5, retransmissions = 0,
      successful_tx = 0, metric = 0\<rparr>"

definition csi_init :: "int \<Rightarrow> 'g \<Rightarrow> 'g csi_state" where
  "csi_init num_users g =
     \<lparr>csi_users = map new_csi_user [0..num_users - 1], spectral_efficiency = [],
      retransmission_rates = [], csi_rng = g\<rparr>"

text \<open>Lines 148-157: channel change, measurement noise and smoothing, user by user.\<close>

fun update_cqi :: "'g np_random \<Rightarrow> real \<Rightarrow> csi_user list \<Rightarrow> 'g \<Rightarrow> csi_user list \<times> 'g" where
  "update_cqi R alpha [] g = ([], g)"
| "update_cqi R alpha (u # us) g =
     (let change_rate = (if mobility u = ''high'' then 2.0 else 0.5) in
      case np_normal R 0 change_rate g of (d, g1) \<Rightarrow>
      let tc = max 1 (true_cqi u + d) in
      case (if mobility u = ''high'' then np_normal R 0 1.5 g1 else np_normal R 0 0.5 g1) of
        (noise, g2) \<Rightarrow>
      let rc = max 1 (tc + noise);
          sc = alpha * rc + (1 - alpha) * smoothed_cqi u in
      case update_cqi R alpha us g2 of (us', g3) \<Rightarrow>
        (u\<lparr>true_cqi := tc, reported_cqi := rc, smoothed_cqi := sc\<rparr> # us', g3))"

text \<open>Lines 160-161.\<close>

definition set_metrics :: "csi_user list \<Rightarrow> csi_user list" where
  "set_metrics us =
     map (\<lambda>u. u\<lparr>metric := smoothed_cqi u / max (csi_avg_throughput u) 0.1\<rparr>) us"

text \<open>Lines 177-178.\<close>

definition total_tx :: "csi_user list \<Rightarrow> nat" where
  "total_tx us = sum_list (map (\<lambda>u. successful_tx u + retransmissions u) us)"

definition retrans_rate :: "csi_user list \<Rightarrow> real" where
  "retrans_rate us =
     real (sum_list (map retransmissions us)) / real (max (total_tx us) 1) * 100"

text \<open>Lines 164-174: the selected user is an element of \<^verbatim>\<open>users\<close> and is updated in place,
  so the selection is a position.  \<^verbatim>\<open>max\<close> raises on an empty user list.\<close>

definition transmit :: "'g np_random \<Rightarrow> csi_user list \<Rightarrow> nat \<Rightarrow> 'g \<Rightarrow> csi_user list \<times> 'g" where
  "transmit R us i g =
     (let su = us ! i;
          cqi_error = \<bar>smoothed_cqi su - true_cqi su\<bar>;
          success_prob = max 0.5 (1.0 - cqi_error / 10.0) in
      case np_rand R g of (r, g1) \<Rightarrow>
        if r < success_prob then
          (us[i := su\<lparr>successful_tx := successful_tx su + 1,
                      csi_avg_throughput := 0.9 * csi_avg_throughput su + 0.1 * smoothed_cqi su\<rparr>],
           g1)
        else (us[i := su\<lparr>retransmissions := retransmissions su + 1\<rparr>], g1))"

text \<open>Lines 146-182: one slot.  At line 181 the user list is not empty (line 164 raised
  otherwise), so the mean is the mean of a non-empty list.\<close>

definition csi_slot :: "'g np_random \<Rightarrow> real \<Rightarrow> 'g csi_state \<Rightarrow> py_error + 'g csi_state" where
  "csi_slot R alpha s =
     (case update_cqi R alpha (csi_users s) (csi_rng s) of (us1, g1) \<Rightarrow>
      (let us2 = set_metrics us1 in
       (case py_argmax metric us2 of
          None \<Rightarrow> Inl ValueError
        | Some i \<Rightarrow>
            (case transmit R us2 i g1 of (us3, g2) \<Rightarrow>
               Inr \<lparr>csi_users = us3,
                    spectral_efficiency = spectral_efficiency s @ [mean (map smoothed_cqi us3)],
                    retransmission_rates = retransmission_rates s @ [retrans_rate us3],
                    csi_rng = g2\<rparr>))))"

primrec csi_run ::
  "'g np_random \<Rightarrow> real \<Rightarrow> nat \<Rightarrow> 'g csi_state \<Rightarrow> py_error + 'g csi_state" where
  "csi_run R alpha 0 s = Inr s"
| "csi_run R alpha (Suc n) s =
     (case csi_run R alpha n s of Inl e \<Rightarrow> Inl e | Inr s' \<Rightarrow> csi_slot R alpha s')"

text \<open>Lines 184-189: the two means are not guarded.\<close>

definition csi_finish :: "'g csi_state \<Rightarrow> csi_result" where
  "csi_finish s =
     \<lparr>csi_spectral_efficiency = np_mean (spectral_efficiency s),
      csi_retransmission_rate = np_mean (retransmission_rates s),
      se_history = last50 (spectral_efficiency s),
      retrans_history = last50 (retransmission_rates s)\<rparr>"

definition simulate_csi_smoothing ::
  "'g np_random \<Rightarrow> real \<Rightarrow> int \<Rightarrow> int \<Rightarrow> 'g \<Rightarrow> py_error + csi_result \<times> 'g" where
  "simulate_csi_smoothing R alpha num_slots num_users g =
     (case csi_run R alpha (nat num_slots) (csi_init num_users g) of
        Inl e \<Rightarrow> Inl e
      | Inr s \<Rightarrow> Inr (csi_finish s, csi_rng s))"

subsection \<open>Solution 3: fragmentation-aware scheduling\<close>

record fragment =
  frag_id :: int
  capacity :: int
  center_freq :: int

record frag_user =
  fu_id :: int
  fu_service_type :: string
  demand :: int
  deadline :: int
  weight :: real
  allocated :: int
  score :: real

record 'g frag_state =
  fragments :: "fragment list"
  utilization_history :: "real list"
  frag_throughput_history :: "int list"
  urllc_compliance_history :: "real list"
  frag_rng :: 'g

record frag_result =
  spectrum_utilization :: npfloat
  frag_avg_throughput :: npfloat
  urllc_compliance :: npfloat
  util_history :: "real list"
  frag_result_throughput_history :: "int list"

text \<open>Lines 198-203.\<close>

definition fragments_init :: "fragment list" where
  "fragments_init =
     [\<lparr>frag_id = 0, capacity = 50, center_freq = 3500\<rparr>,
      \<lparr>frag_id = 1, capacity = 40, center_freq = 3600\<rparr>,
      \<lparr>frag_id = 2, capacity = 30, center_freq = 3800\<rparr>,
      \<lparr>frag_id = 3, capacity = 35, center_freq = 2600\<rparr>]"

definition frag_init :: "'g \<Rightarrow> 'g frag_state" where
  "frag_init g =
     \<lparr>fragments = fragments_init, utilization_history = [], frag_throughput_history = [],
      urllc_compliance_history = [], frag_rng = g\<rparr>"

text \<open>Lines 213-237: the demands of one slot; \<^verbatim>\<open>score\<close> is set by line 242.\<close>

definition draw_user :: "'g np_random \<Rightarrow> int \<Rightarrow> 'g \<Rightarrow> frag_user \<times> 'g" where
  "draw_user R i g =
     (if i < 4 then
        (case np_randint R 5 15 g of (dm, g1) \<Rightarrow>
         case np_randint R 3 6 g1 of (dl, g2) \<Rightarrow>
           (\<lparr>fu_id = i, fu_service_type = ''URLLC'', demand = dm, deadline = dl,
             weight = 10, allocated = 0, score = 0\<rparr>, g2))
      else if i < 8 then
        (case np_randint R 15 30 g of (dm, g1) \<Rightarrow>
         case np_randint R 10 20 g1 of (dl, g2) \<Rightarrow>
           (\<lparr>fu_id = i, fu_service_type = ''eMBB'', demand = dm, deadline = dl,
             weight = 5, allocated = 0, score = 0\<rparr>, g2))
      else
        (case np_randint R 3 10 g of (dm, g1) \<Rightarrow>
         case np_randint R 30 50 g1 of (dl, g2) \<Rightarrow>
           (\<lparr>fu_id = i, fu_service_type = ''mMTC'', demand = dm, deadline = dl,
             weight = 1, allocated = 0, score = 0\<rparr>, g2)))"

fun draw_users :: "'g np_random \<Rightarrow> int list \<Rightarrow> 'g \<Rightarrow> frag_user list \<times> 'g" where
  "draw_users R [] g = ([], g)"
| "draw_users R (i # is) g =
     (case draw_user R i g of (u, g1) \<Rightarrow>
      case draw_users R is g1 of (us, g2) \<Rightarrow> (u # us, g2))"

text \<open>Lines 240-242.  \<^verbatim>\<open>randint\<close> returns a Python int, and a float divided by the int 0
  raises.\<close>

fun set_scores :: "frag_user list \<Rightarrow> py_error + frag_user list" where
  "set_scores [] = Inr []"
| "set_scores (u # us) =
     (if allocated u + 1 = 0 \<or> deadline u = 0 then Inl ZeroDivisionError
      else case set_scores us of
             Inl e \<Rightarrow> Inl e
           | Inr us' \<Rightarrow>
               Inr (u\<lparr>score := weight u * (1 / real_of_int (deadline u))
                                 + 1 / real_of_int (allocated u + 1)\<rparr> # us'))"

text \<open>Line 244: a stable sort by descending score.\<close>

definition sort_by_score :: "frag_user list \<Rightarrow> frag_user list" where
  "sort_by_score us = sort_key (\<lambda>u. - score u) us"

text \<open>Lines 248-257.  A cluster holds references to the fragment objects, which the
  allocation mutates; a cluster is therefore a list of positions in \<^verbatim>\<open>fragments\<close>.\<close>

fun add_to_clusters :: "fragment list \<Rightarrow> nat \<Rightarrow> nat list list \<Rightarrow> nat list list" where
  "add_to_clusters fs i [] = [[i]]"
| "add_to_clusters fs i (c # cs) =
     (if list_ex (\<lambda>j. \<bar>center_freq (fs ! i) - center_freq (fs ! j)\<bar> < 150) c
      then (c @ [i]) # cs
      else c # add_to_clusters fs i cs)"

definition make_clusters :: "fragment list \<Rightarrow> nat list list" where
  "make_clusters fs = foldl (\<lambda>cs i. add_to_clusters fs i cs) [] [0..<length fs]"

text \<open>Lines 278-285 (and 266-273): one user over a list of fragments, given by position.
  The triple is the user, the fragments and \<^verbatim>\<open>remaining\<close>.\<close>

fun alloc_over ::
  "nat list \<Rightarrow> frag_user \<times> fragment list \<times> int \<Rightarrow> frag_user \<times> fragment list \<times> int" where
  "alloc_over [] x = x"
| "alloc_over (i # is) (u, fs, remaining) =
     (if remaining \<le> 0 then (u, fs, remaining)
      else
        (let available = capacity (fs ! i);
             a = min remaining available in
         alloc_over is
           (u\<lparr>allocated := allocated u + a\<rparr>,
            fs[i := (fs ! i)\<lparr>capacity := capacity (fs ! i) - a\<rparr>],
            remaining - a)))"

text \<open>Lines 262-273: one user over the clusters.\<close>

fun alloc_clusters ::
  "nat list list \<Rightarrow> frag_user \<times> fragment list \<times> int \<Rightarrow> frag_user \<times> fragment list \<times> int" where
  "alloc_clusters [] x = x"
| "alloc_clusters (c # cs) (u, fs, remaining) =
     (if remaining \<le> 0 then (u, fs, remaining)
      else alloc_clusters cs (alloc_over c (u, fs, remaining)))"

text \<open>Lines 260-261 and 276-277: all users in sorted order.\<close>

fun allocate_clustered ::
  "nat list list \<Rightarrow> frag_user list \<Rightarrow> fragment list \<Rightarrow> frag_user list \<times> fragment list" where
  "allocate_clustered cs [] fs = ([], fs)"
| "allocate_clustered cs (u # us) fs =
     (case alloc_clusters cs (u, fs, demand u - allocated u) of (u', fs', r) \<Rightarrow>
      case allocate_clustered cs us fs' of (us', fs'') \<Rightarrow> (u' # us', fs''))"

fun allocate_plain :: "frag_user list \<Rightarrow> fragment list \<Rightarrow> frag_user list \<times> fragment list" where
  "allocate_plain [] fs = ([], fs)"
| "allocate_plain (u # us) fs =
     (case alloc_over [0..<length fs] (u, fs, demand u - allocated u) of (u', fs', r) \<Rightarrow>
      case allocate_plain us fs' of (us', fs'') \<Rightarrow> (u' # us', fs''))"

text \<open>Lines 246-285.\<close>

definition allocate :: "bool \<Rightarrow> frag_user list \<Rightarrow> fragment list \<Rightarrow> frag_user list \<times> fragment list" where
  "allocate clustering_enabled us fs =
     (if clustering_enabled then allocate_clustered (make_clusters fs) us fs
      else allocate_plain us fs)"

text \<open>Lines 288-299: the metrics of one slot.\<close>

definition total_allocated :: "frag_user list \<Rightarrow> int" where
  "total_allocated us = sum_list (map allocated us)"

definition utilization_of :: "frag_user list \<Rightarrow> real" where
  "utilization_of us = real_of_int (total_allocated us) / real_of_int (50 + 40 + 30 + 35) * 100"

definition urllc_compliance_of :: "frag_user list \<Rightarrow> real" where
  "urllc_compliance_of us =
     (let uu = filter (\<lambda>u. fu_service_type u = ''URLLC'') us in
      real (length (filter (\<lambda>u. allocated u \<ge> demand u) uu)) / real (max (length uu) 1) * 100)"

text \<open>Lines 302-305.\<close>

definition reset_capacities :: "fragment list \<Rightarrow> fragment list" where
  "reset_capacities fs =
     (let f1 = fs[0 := (fs ! 0)\<lparr>capacity := 50\<rparr>];
          f2 = f1[1 := (f1 ! 1)\<lparr>capacity := 40\<rparr>];
          f3 = f2[2 := (f2 ! 2)\<lparr>capacity := 30\<rparr>]
      in f3[3 := (f3 ! 3)\<lparr>capacity := 35\<rparr>])"

text \<open>Lines 211-285: the slot up to the end of the allocation: the users in sorted order
  with their \<^verbatim>\<open>allocated\<close> counters, the fragments as the allocation leaves them, and the
  generator.\<close>

definition frag_allocation ::
  "'g np_random \<Rightarrow> bool \<Rightarrow> 'g frag_state \<Rightarrow> py_error + frag_user list \<times> fragment list \<times> 'g" where
  "frag_allocation R clustering_enabled s =
     (case draw_users R [0..12 - 1] (frag_rng s) of (us0, g1) \<Rightarrow>
      (case set_scores us0 of
         Inl e \<Rightarrow> Inl e
       | Inr us1 \<Rightarrow>
           (case allocate clustering_enabled (sort_by_score us1) (fragments s) of
              (us2, fs) \<Rightarrow> Inr (us2, fs, g1))))"

text \<open>Lines 210-305: one slot.\<close>

definition frag_slot :: "'g np_random \<Rightarrow> bool \<Rightarrow> 'g frag_state \<Rightarrow> py_error + 'g frag_state" where
  "frag_slot R clustering_enabled s =
     (case frag_allocation R clustering_enabled s of
        Inl e \<Rightarrow> Inl e
      | Inr (us, fs, g1) \<Rightarrow>
          Inr \<lparr>fragments = reset_capacities fs,
               utilization_history = utilization_history s @ [utilization_of us],
               frag_throughput_history = frag_throughput_history s @ [total_allocated us],
               urllc_compliance_history = urllc_compliance_history s @ [urllc_compliance_of us],
               frag_rng = g1\<rparr>)"

primrec frag_run ::
  "'g np_random \<Rightarrow> bool \<Rightarrow> nat \<Rightarrow> 'g frag_state \<Rightarrow> py_error + 'g frag_state" where
  "frag_run R c 0 s = Inr s"
| "frag_run R c (Suc n) s =
     (case frag_run R c n s of Inl e \<Rightarrow> Inl e | Inr s' \<Rightarrow> frag_slot R c s')"

text \<open>Lines 307-313: the three means are not guarded.\<close>

definition frag_finish :: "'g frag_state \<Rightarrow> frag_result" where
  "frag_finish s =
     \<lparr>spectrum_utilization = np_mean (utilization_history s),
      frag_avg_throughput = np_mean (map real_of_int (frag_throughput_history s)),
      urllc_compliance = np_mean (urllc_compliance_history s),
      util_history = last50 (utilization_history s),
      frag_result_throughput_history = last50 (frag_throughput_history s)\<rparr>"

definition simulate_fragmentation_aware ::
  "'g np_random \<Rightarrow> bool \<Rightarrow> int \<Rightarrow> 'g \<Rightarrow> py_error + frag_result \<times> 'g" where
  "simulate_fragmentation_aware R clustering_enabled num_slots g =
     (case frag_run R clustering_enabled (nat num_slots) (frag_init g) of
        Inl e \<Rightarrow> Inl e
      | Inr s \<Rightarrow> Inr (frag_finish s, frag_rng s))"

subsection \<open>Contract of the generator, and a concrete generator\<close>

text \<open>\<^verbatim>\<open>np.random.randint(lo, hi)\<close> returns an integer of the half-open interval from \<open>lo\<close>
  to \<open>hi\<close>.\<close>

definition randint_in_range :: "'g np_random \<Rightarrow> bool" where
  "randint_in_range R =
     (\<forall>lo hi g. lo < hi \<longrightarrow> lo \<le> fst (np_randint R lo hi g) \<and> fst (np_randint R lo hi g) < hi)"

text \<open>A generator to run the simulators on: its state counts the draws; every draw returns
  the lower end of its range, the mean of its normal distribution, and alternately
  \<open>0.1\<close> and \<open>0.9\<close> for \<^verbatim>\<open>random()\<close>.\<close>

definition counting_rng :: "nat np_random" where
  "counting_rng =
     \<lparr>np_seed = (\<lambda>sd. nat sd),
      np_rand = (\<lambda>g. (if even g then 0.1 else 0.9, Suc g)),
      np_uniform = (\<lambda>lo hi g. (lo, Suc g)),
      np_normal = (\<lambda>mu sigma g. (mu, Suc g)),
      np_randint = (\<lambda>lo hi g. (lo, Suc g))\<rparr>"

text \<open>The capacity that a slot's allocation has taken from the fragments: over the
  fragments, the nominal capacity minus the capacity the allocation leaves.\<close>

definition capacity_consumed :: "fragment list \<Rightarrow> int" where
  "capacity_consumed fs = sum_list (map2 (\<lambda>n f. capacity n - capacity f) fragments_init fs)"

text \<open>Between two user lists of a CSI slot: the user at position \<open>i\<close> has exactly one of its
  two counters incremented by 1, and no other user's counters change.\<close>

definition one_counter_incremented :: "csi_user list \<Rightarrow> csi_user list \<Rightarrow> nat \<Rightarrow> bool" where
  "one_counter_incremented us us' i \<longleftrightarrow>
     i < length us \<and> length us' = length us
     \<and> ((successful_tx (us' ! i) = successful_tx (us ! i) + 1
           \<and> retransmissions (us' ! i) = retransmissions (us ! i))
         \<or> (successful_tx (us' ! i) = successful_tx (us ! i)
           \<and> retransmissions (us' ! i) = retransmissions (us ! i) + 1))
     \<and> (\<forall>j < length us. j \<noteq> i \<longrightarrow>
           successful_tx (us' ! j) = successful_tx (us ! j)
           \<and> retransmissions (us' ! j) = retransmissions (us ! j))"

subsection \<open>Notions used in the statements about the DAS queues\<close>

text \<open>Line 64 on one packet.\<close>

definition age :: "packet \<Rightarrow> packet" where
  "age p = p\<lparr>remaining_time := remaining_time p - 1\<rparr>"

text \<open>The fields of a user that are set once, at creation.\<close>

definition static :: "User \<Rightarrow> int \<times> string \<times> int" where
  "static u = (user_id u, service_type u, pdb u)"

text \<open>The packets of a user that are unaccounted for: its arrivals minus the packets in
  its queue, its recorded transmissions and its counted timeouts.\<close>

definition balance :: "(int \<Rightarrow> nat) \<Rightarrow> (int \<Rightarrow> int list) \<Rightarrow> (int \<Rightarrow> nat) \<Rightarrow> User \<Rightarrow> int" where
  "balance tp dl tmo u =
     int (tp (user_id u))
       - (int (length (packets u)) + int (length (dl (user_id u))) + int (tmo (user_id u)))"

text \<open>The balance of a user in a state of the simulation.\<close>

definition state_balance :: "'g das_state \<Rightarrow> User \<Rightarrow> int" where
  "state_balance s u = balance (total_packets s) (delays s) (timeouts s) u"

text \<open>Lines 87 and 93 on the selected user: the head packet \<open>p\<close> leaves the queue, \<open>ps\<close>
  stays.\<close>

definition serve_head :: "User \<Rightarrow> packet \<Rightarrow> packet list \<Rightarrow> User" where
  "serve_head su p ps =
     su\<lparr>packets := ps, avg_throughput := 0.9 * avg_throughput su + 0.1 * pkt_size p\<rparr>"

text \<open>Lines 97-99 on one user: the queue that the sweep keeps, and the number of packets
  that it counts as timeouts.\<close>

definition sweep :: "User \<Rightarrow> User" where
  "sweep u = u\<lparr>packets := filter (\<lambda>p. remaining_time p > 0) (packets u)\<rparr>"

definition expired_count :: "User \<Rightarrow> nat" where
  "expired_count u = length (filter (\<lambda>p. remaining_time p \<le> 0) (packets u))"

text \<open>The position of the user whose head packet lines 83-93 transmit, if any: the
  selected user, when its queue is not empty.\<close>

definition served_index :: "real \<Rightarrow> User list \<Rightarrow> nat option" where
  "served_index beta us =
     (case select_user_id (compute_priorities beta us) of
        None \<Rightarrow> None
      | Some k \<Rightarrow>
          (case find_user k us of
             None \<Rightarrow> None
           | Some i \<Rightarrow> if packets (us ! i) = [] then None else Some i))"

text \<open>The users as the selection of line 84 sees them: after the arrivals and the ageing
  of the slot.\<close>

definition aged_users :: "'g np_random \<Rightarrow> 'g das_state \<Rightarrow> User list" where
  "aged_users R s = age_packets (fst (generate_packets R (users s) (total_packets s) (rng s)))"

text \<open>A rate lies in the interval from 0 to 100; \<^verbatim>\<open>nan\<close> does not.\<close>

fun in_percent_range :: "npfloat \<Rightarrow> bool" where
  "in_percent_range (Float v) = (0 \<le> v \<and> v \<le> 100)"
| "in_percent_range NaN = False"

text \<open>A generator that scripts one run of two users: a single arrival, for user 1 in
  slot 0 (the draw with \<open>g = 3\<close>), and a jump of user 1's channel metric at the end of slot 3
  (the draw with \<open>g = 18\<close>), so that user 0 is selected in slots 0 to 3 and user 1 in slot 4.\<close>

definition scripted_rng :: "nat np_random" where
  "scripted_rng =
     \<lparr>np_seed = (\<lambda>sd. nat sd),
      np_rand = (\<lambda>g. (if g = 3 then 0.1 else 0.9, Suc g)),
      np_uniform = (\<lambda>lo hi g. (lo, Suc g)),
      np_normal = (\<lambda>mu sigma g. (if g = 18 then mu + 10 else mu, Suc g)),
      np_randint = (\<lambda>lo hi g. (lo, Suc g))\<rparr>"

text \<open>The state of that run after four slots, and the state after a one-slot run of two
  users on \<open>counting_rng\<close>.\<close>

definition late_state :: "nat das_state" where
  "late_state = das_run scripted_rng 0 4 (das_init scripted_rng 2 0)"

definition leftover_state :: "nat das_state" where
  "leftover_state = das_run counting_rng 0.7 1 (das_init counting_rng 2 0)"

section \<open>Properties\<close>

subsection \<open>Histories\<close>

lemma length_last50: "length (last50 xs) = min (length xs) 50"
  by (simp add: last50_def)

lemma das_slot_history:
  "length (throughput_history (das_slot R beta s)) = Suc (length (throughput_history s))"
  by (simp add: das_slot_def split: prod.splits)

lemma das_run_history:
  "length (throughput_history (das_run R beta n s)) = length (throughput_history s) + n"
  by (induction n) (simp_all add: das_slot_history)

lemma das_init_history: "throughput_history (das_init R u g) = []"
  by (simp add: das_init_def split: prod.splits)

lemma simulate_das_history:
  "length (das_throughput_history (fst (simulate_das R beta n u seed g))) = min (nat n) 50"
  by (simp add: simulate_das_def das_finish_def Let_def length_last50 das_run_history
      das_init_history)

subsection \<open>The baseline and determinism\<close>

text \<open>C2: for every seed, slot count and user count, \<^verbatim>\<open>simulate_pf\<close> returns exactly what
  \<^verbatim>\<open>simulate_das\<close> with \<open>beta = 0\<close> returns on the same arguments (every scalar aggregate and
  the throughput history), when both start from the same state of the generator; they also
  leave the generator in the same state.  With \<open>beta = 0\<close> the priority of a user is the
  proportional-fair metric alone.\<close>

theorem simulate_pf_is_das_beta_0:
  "simulate_pf R num_slots num_users seed g = simulate_das R 0 num_slots num_users seed g
   \<and> priority 0 u = instantaneous_rate u / max (avg_throughput u) 0.001"
  by (simp add: simulate_pf_def priority_def w2_of_def)

text \<open>C5: with a seed, \<^verbatim>\<open>simulate_das\<close> is deterministic: two invocations with the same seed,
  beta, slot count and user count return the same result (throughput history and scalar
  aggregates), whatever state the global generator was in before each of them.\<close>

theorem simulate_das_seeded_deterministic:
  "simulate_das R beta num_slots num_users (Some sd) g1
     = simulate_das R beta num_slots num_users (Some sd) g2"
  by (simp add: simulate_das_def)

subsection \<open>Zero slots\<close>

text \<open>C1: the claim asks for \<open>0.0\<close> aggregates at \<open>num_slots = 0\<close>.  The means of lines
  185-186 and 308-310 are taken without the guard that lines 109-110 have: with no slot
  both simulators return without raising, but every aggregate is \<^verbatim>\<open>nan\<close>, not \<open>0.0\<close>.\<close>

theorem zero_slots_aggregates_are_nan:
  "simulate_csi_smoothing R alpha 0 num_users g =
     Inr (\<lparr>csi_spectral_efficiency = NaN, csi_retransmission_rate = NaN,
           se_history = [], retrans_history = []\<rparr>, g)
   \<and> simulate_fragmentation_aware R clustering_enabled 0 g =
     Inr (\<lparr>spectrum_utilization = NaN, frag_avg_throughput = NaN, urllc_compliance = NaN,
           util_history = [], frag_result_throughput_history = []\<rparr>, g)
   \<and> NaN \<noteq> Float 0"
  by (simp add: simulate_csi_smoothing_def csi_init_def csi_finish_def
      simulate_fragmentation_aware_def frag_init_def frag_finish_def np_mean_def last50_def)

subsection \<open>CSI: a slot returns unless there is no user\<close>

lemma update_cqi_length: "update_cqi R alpha us g = (us', g') \<Longrightarrow> length us' = length us"
  by (induction us arbitrary: us' g g') (auto simp: Let_def split: prod.splits if_splits)

lemma py_argmax_None: "py_argmax key xs = None \<longleftrightarrow> xs = []"
  by (simp add: py_argmax_def split: list.splits)

lemma argmax_from_bound: "bi < i \<Longrightarrow> argmax_from key bi b i xs < i + length xs"
proof (induction xs arbitrary: bi b i)
  case Nil
  then show ?case by simp
next
  case (Cons x xs)
  have a: "argmax_from key i x (Suc i) xs < Suc i + length xs"
    by (rule Cons.IH) simp
  have b: "argmax_from key bi b (Suc i) xs < Suc i + length xs"
    by (rule Cons.IH) (use Cons.prems in simp)
  show ?case using a b by simp
qed

lemma py_argmax_Some: "py_argmax key xs = Some i \<Longrightarrow> i < length xs"
  using argmax_from_bound[of 0 1 key] by (auto simp: py_argmax_def split: list.splits)

lemma transmit_length: "transmit R us i g = (us', g') \<Longrightarrow> length us' = length us"
  by (auto simp: transmit_def Let_def split: prod.splits if_splits)

lemma csi_slot_Inr:
  assumes "csi_slot R alpha s = Inr s'"
  shows "length (csi_users s') = length (csi_users s)"
    and "length (spectral_efficiency s') = Suc (length (spectral_efficiency s))"
    and "length (retransmission_rates s') = Suc (length (retransmission_rates s))"
  using assms
  by (auto simp: csi_slot_def Let_def set_metrics_def split: prod.splits option.splits
      dest!: update_cqi_length transmit_length)

lemma csi_slot_returns:
  assumes "csi_users s \<noteq> []"
  shows "\<exists>s'. csi_slot R alpha s = Inr s'"
proof -
  obtain us1 g1 where u: "update_cqi R alpha (csi_users s) (csi_rng s) = (us1, g1)"
    by (cases "update_cqi R alpha (csi_users s) (csi_rng s)")
  with assms have "us1 \<noteq> []" using update_cqi_length[OF u] by auto
  then have "py_argmax metric (set_metrics us1) \<noteq> None"
    by (simp add: py_argmax_None set_metrics_def)
  then show ?thesis using u
    by (auto simp: csi_slot_def Let_def split: prod.splits option.splits)
qed

lemma csi_run_returns:
  assumes "csi_users s \<noteq> []"
  shows "\<exists>s'. csi_run R alpha n s = Inr s' \<and> length (csi_users s') = length (csi_users s)
     \<and> length (spectral_efficiency s') = length (spectral_efficiency s) + n
     \<and> length (retransmission_rates s') = length (retransmission_rates s) + n"
proof (induction n)
  case 0
  then show ?case by simp
next
  case (Suc n)
  then obtain s1 where s1: "csi_run R alpha n s = Inr s1"
    "length (csi_users s1) = length (csi_users s)"
    "length (spectral_efficiency s1) = length (spectral_efficiency s) + n"
    "length (retransmission_rates s1) = length (retransmission_rates s) + n" by blast
  with assms have "csi_users s1 \<noteq> []" by auto
  then obtain s2 where s2: "csi_slot R alpha s1 = Inr s2" using csi_slot_returns by blast
  show ?case using s1 s2 csi_slot_Inr[OF s2] by simp
qed

subsection \<open>FRAG: clustering visits the fragments in list order\<close>

lemma make_clusters_init: "make_clusters fragments_init = [[0, 1], [2], [3]]"
  by (simp add: make_clusters_def fragments_init_def upt_rec)

lemma alloc_over_done: "r \<le> 0 \<Longrightarrow> alloc_over is (u, fs, r) = (u, fs, r)"
  by (cases "is") simp_all

lemma alloc_over_append: "alloc_over (xs @ ys) x = alloc_over ys (alloc_over xs x)"
proof (induction xs arbitrary: x)
  case Nil
  then show ?case by simp
next
  case (Cons i xs)
  obtain u fs r where x: "x = (u, fs, r)" by (cases x)
  show ?case
  proof (cases "r \<le> 0")
    case True
    then show ?thesis by (simp add: x alloc_over_done)
  next
    case False
    then show ?thesis by (simp add: x Cons.IH Let_def)
  qed
qed

lemma alloc_clusters_concat: "alloc_clusters cs x = alloc_over (concat cs) x"
proof (induction cs arbitrary: x)
  case Nil
  then show ?case by simp
next
  case (Cons c cs)
  obtain u fs r where x: "x = (u, fs, r)" by (cases x)
  show ?case
  proof (cases "r \<le> 0")
    case True
    then show ?thesis by (simp add: x alloc_over_done)
  next
    case False
    then show ?thesis by (simp add: x Cons.IH alloc_over_append)
  qed
qed

lemma map_update_same: "(map f xs)[i := f (xs ! i)] = map f xs"
  by (cases "i < length xs") (simp_all add: list_update_same_conv list_update_beyond)

lemma alloc_over_layout:
  "alloc_over is (u, fs, r) = (u', fs', r') \<Longrightarrow>
     map frag_id fs' = map frag_id fs \<and> map center_freq fs' = map center_freq fs"
proof (induction "is" arbitrary: u fs r)
  case Nil
  then show ?case by simp
next
  case (Cons i "is")
  show ?case
  proof (cases "r \<le> 0")
    case True
    with Cons.prems show ?thesis by simp
  next
    case False
    let ?a = "min r (capacity (fs ! i))"
    let ?fs = "fs[i := (fs ! i)\<lparr>capacity := capacity (fs ! i) - ?a\<rparr>]"
    from False Cons.prems
    have "alloc_over is (u\<lparr>allocated := allocated u + ?a\<rparr>, ?fs, r - ?a) = (u', fs', r')"
      by (simp add: Let_def)
    from Cons.IH[OF this] have "map frag_id fs' = map frag_id ?fs"
      "map center_freq fs' = map center_freq ?fs" by simp_all
    moreover have "map frag_id ?fs = map frag_id fs" "map center_freq ?fs = map center_freq fs"
      by (simp_all add: map_update map_update_same)
    ultimately show ?thesis by simp
  qed
qed

lemma alloc_over_length: "alloc_over is (u, fs, r) = (u', fs', r') \<Longrightarrow> length fs' = length fs"
  using alloc_over_layout[of "is" u fs r u' fs' r'] by (metis length_map)

lemma allocate_clustered_plain:
  "length fs = 4 \<Longrightarrow> allocate_clustered [[0, 1], [2], [3]] us fs = allocate_plain us fs"
proof (induction us arbitrary: fs)
  case Nil
  then show ?case by simp
next
  case (Cons u us)
  have idx: "[0..<length fs] = concat [[0, 1], [2], [3]]"
    using Cons.prems by (simp add: upt_rec)
  obtain u' fs' r' where a: "alloc_over [0..<length fs] (u, fs, demand u - allocated u) = (u', fs', r')"
    by (cases "alloc_over [0..<length fs] (u, fs, demand u - allocated u)")
  then have c: "alloc_clusters [[0, 1], [2], [3]] (u, fs, demand u - allocated u) = (u', fs', r')"
    by (simp only: alloc_clusters_concat idx)
  have "length fs' = 4" using alloc_over_length[OF a] Cons.prems by simp
  from Cons.IH[OF this] show ?case
    by (simp only: allocate_clustered.simps allocate_plain.simps a c prod.case)
qed

lemma allocate_modes_agree: "allocate True us fragments_init = allocate False us fragments_init"
proof -
  have "length fragments_init = 4" by (simp add: fragments_init_def)
  from allocate_clustered_plain[OF this] show ?thesis
    by (simp add: allocate_def make_clusters_init)
qed

lemma allocate_plain_layout:
  "allocate_plain us fs = (us', fs') \<Longrightarrow>
     map frag_id fs' = map frag_id fs \<and> map center_freq fs' = map center_freq fs"
proof (induction us arbitrary: fs us' fs')
  case Nil
  then show ?case by simp
next
  case (Cons u us)
  obtain u1 fs1 r1 where a: "alloc_over [0..<length fs] (u, fs, demand u - allocated u) = (u1, fs1, r1)"
    by (cases "alloc_over [0..<length fs] (u, fs, demand u - allocated u)")
  obtain us2 fs2 where b: "allocate_plain us fs1 = (us2, fs2)"
    by (cases "allocate_plain us fs1")
  from Cons.prems a b have "fs' = fs2" by simp
  with Cons.IH[OF b] alloc_over_layout[OF a] show ?case by simp
qed

lemma reset_capacities_init:
  assumes "map frag_id fs = map frag_id fragments_init"
    and "map center_freq fs = map center_freq fragments_init"
  shows "reset_capacities fs = fragments_init"
proof -
  have "length (map frag_id fs) = 4" by (simp add: assms(1) fragments_init_def)
  then have "length fs = 4" by simp
  then obtain a b c d where fs: "fs = [a, b, c, d]"
    by (auto simp: length_Suc_conv eval_nat_numeral)
  show ?thesis using assms
    by (simp add: fs reset_capacities_def fragments_init_def Let_def)
qed

lemma frag_slot_fragments:
  assumes "fragments s = fragments_init" and "frag_slot R c s = Inr s'"
  shows "fragments s' = fragments_init"
proof -
  from assms(2) obtain us fs g1 where al: "frag_allocation R c s = Inr (us, fs, g1)"
    and s': "fragments s' = reset_capacities fs"
    by (auto simp: frag_slot_def split: sum.splits prod.splits)
  from al obtain us1 where "allocate c us1 fragments_init = (us, fs)"
    by (auto simp: frag_allocation_def assms(1) split: sum.splits prod.splits)
  then have "allocate_plain us1 fragments_init = (us, fs)"
    using allocate_modes_agree[of us1] by (cases c) (simp_all add: allocate_def)
  from allocate_plain_layout[OF this] show ?thesis
    by (simp add: s' reset_capacities_init)
qed

lemma frag_run_fragments:
  "fragments s = fragments_init \<Longrightarrow> frag_run R c n s = Inr s' \<Longrightarrow> fragments s' = fragments_init"
proof (induction n arbitrary: s')
  case 0
  then show ?case by simp
next
  case (Suc n)
  from Suc.prems(2) obtain s1 where r: "frag_run R c n s = Inr s1" and sl: "frag_slot R c s1 = Inr s'"
    by (auto split: sum.splits)
  from Suc.IH[OF Suc.prems(1) r] frag_slot_fragments[OF _ sl] show ?case by simp
qed

lemma frag_slot_modes_agree:
  assumes "fragments s = fragments_init"
  shows "frag_slot R True s = frag_slot R False s"
proof -
  have "frag_allocation R True s = frag_allocation R False s"
    unfolding frag_allocation_def assms allocate_modes_agree ..
  then show ?thesis by (simp only: frag_slot_def)
qed

lemma frag_run_modes_agree:
  "fragments s = fragments_init \<Longrightarrow> frag_run R True n s = frag_run R False n s"
proof (induction n)
  case 0
  then show ?case by simp
next
  case (Suc n)
  show ?case
  proof (cases "frag_run R False n s")
    case (Inl e)
    with Suc show ?thesis by simp
  next
    case (Inr s1)
    with Suc have "fragments s1 = fragments_init" using frag_run_fragments by blast
    with Suc Inr show ?thesis by (simp add: frag_slot_modes_agree)
  qed
qed

subsection \<open>FRAG: what an allocation conserves\<close>

lemma sum_capacity_update:
  "i < length fs \<Longrightarrow>
     sum_list (map capacity (fs[i := (fs ! i)\<lparr>capacity := c\<rparr>]))
       = sum_list (map capacity fs) + c - capacity (fs ! i)"
proof (induction fs arbitrary: i)
  case Nil
  then show ?case by simp
next
  case (Cons f fs)
  then show ?case by (cases i) simp_all
qed

lemma capacity_update_nonneg:
  "list_all (\<lambda>f. 0 \<le> capacity f) fs \<Longrightarrow> 0 \<le> c \<Longrightarrow>
     list_all (\<lambda>f. 0 \<le> capacity f) (fs[i := (fs ! i)\<lparr>capacity := c\<rparr>])"
  by (auto simp: list_all_iff dest!: set_update_subset_insert[THEN subsetD])

lemma alloc_over_conserves:
  assumes "alloc_over is (u, fs, r) = (u', fs', r')"
    and "list_all (\<lambda>i. i < length fs) is"
    and "list_all (\<lambda>f. 0 \<le> capacity f) fs"
  shows "allocated u' + sum_list (map capacity fs') = allocated u + sum_list (map capacity fs)
     \<and> list_all (\<lambda>f. 0 \<le> capacity f) fs' \<and> allocated u \<le> allocated u'
     \<and> demand u' = demand u \<and> fu_service_type u' = fu_service_type u"
  using assms
proof (induction "is" arbitrary: u fs r)
  case Nil
  then show ?case by simp
next
  case (Cons i "is")
  show ?case
  proof (cases "r \<le> 0")
    case True
    with Cons.prems show ?thesis by simp
  next
    case False
    let ?a = "min r (capacity (fs ! i))"
    let ?u = "u\<lparr>allocated := allocated u + ?a\<rparr>"
    let ?fs = "fs[i := (fs ! i)\<lparr>capacity := capacity (fs ! i) - ?a\<rparr>]"
    have i: "i < length fs" using Cons.prems(2) by simp
    then have ci: "0 \<le> capacity (fs ! i)" using Cons.prems(3) by (simp add: list_all_length)
    then have a0: "0 \<le> ?a" using False by simp
    from False Cons.prems(1)
    have step: "alloc_over is (?u, ?fs, r - ?a) = (u', fs', r')"
      by (simp add: Let_def)
    have idx: "list_all (\<lambda>i. i < length ?fs) is" using Cons.prems(2) by simp
    have nn: "list_all (\<lambda>f. 0 \<le> capacity f) ?fs"
      by (rule capacity_update_nonneg[OF Cons.prems(3)]) simp
    have sm: "sum_list (map capacity ?fs) = sum_list (map capacity fs) - ?a"
      using sum_capacity_update[OF i, of "capacity (fs ! i) - ?a"] by simp
    note ih = Cons.IH[OF step idx nn]
    have e1: "allocated u' + sum_list (map capacity fs') = allocated ?u + sum_list (map capacity ?fs)"
      using ih by blast
    have e2: "allocated ?u \<le> allocated u'" using ih by blast
    have e3: "allocated ?u = allocated u + ?a" by simp
    have "allocated u' + sum_list (map capacity fs') = allocated u + sum_list (map capacity fs)"
      using e1 e3 sm by linarith
    moreover have "allocated u \<le> allocated u'" using e2 e3 a0 by linarith
    moreover have "list_all (\<lambda>f. 0 \<le> capacity f) fs'" using ih by blast
    moreover have "demand u' = demand u" "fu_service_type u' = fu_service_type u"
      using ih by simp_all
    ultimately show ?thesis by blast
  qed
qed

lemma allocate_plain_conserves:
  assumes "allocate_plain us fs = (us', fs')"
    and "list_all (\<lambda>f. 0 \<le> capacity f) fs"
  shows "sum_list (map allocated us') + sum_list (map capacity fs')
           = sum_list (map allocated us) + sum_list (map capacity fs)
     \<and> list_all (\<lambda>f. 0 \<le> capacity f) fs'
     \<and> sum_list (map allocated us) \<le> sum_list (map allocated us')
     \<and> map demand us' = map demand us \<and> map fu_service_type us' = map fu_service_type us"
  using assms
proof (induction us arbitrary: fs us' fs')
  case Nil
  then show ?case by simp
next
  case (Cons u us)
  obtain u1 fs1 r1 where a: "alloc_over [0..<length fs] (u, fs, demand u - allocated u) = (u1, fs1, r1)"
    by (cases "alloc_over [0..<length fs] (u, fs, demand u - allocated u)")
  obtain us2 fs2 where b: "allocate_plain us fs1 = (us2, fs2)"
    by (cases "allocate_plain us fs1")
  from Cons.prems(1) a b have eq: "us' = u1 # us2" "fs' = fs2" by simp_all
  have "list_all (\<lambda>i. i < length fs) [0..<length fs]" by (simp add: list_all_iff)
  from alloc_over_conserves[OF a this Cons.prems(2)]
  have h: "allocated u1 + sum_list (map capacity fs1) = allocated u + sum_list (map capacity fs)"
    "list_all (\<lambda>f. 0 \<le> capacity f) fs1" "allocated u \<le> allocated u1"
    "demand u1 = demand u" "fu_service_type u1 = fu_service_type u" by simp_all
  from Cons.IH[OF b h(2)] h show ?case by (simp add: eq)
qed

lemma draw_user_allocated: "draw_user R i g = (u, g') \<Longrightarrow> allocated u = 0"
  by (auto simp: draw_user_def split: if_splits prod.splits)

lemma draw_users_allocated:
  "draw_users R is g = (us, g') \<Longrightarrow> list_all (\<lambda>u. allocated u = 0) us"
  by (induction "is" arbitrary: g us g')
     (auto split: prod.splits dest: draw_user_allocated)

lemma set_scores_allocated: "set_scores us = Inr us' \<Longrightarrow> map allocated us' = map allocated us"
  by (induction us arbitrary: us') (auto split: if_splits sum.splits)

lemma sum_list_all_zero: "list_all (\<lambda>u. allocated u = 0) us \<Longrightarrow> sum_list (map allocated us) = 0"
  by (induction us) simp_all

lemma capacity_consumed_eq:
  "length fs = 4 \<Longrightarrow> capacity_consumed fs = 155 - sum_list (map capacity fs)"
proof -
  assume "length fs = 4"
  then obtain a b c d where fs: "fs = [a, b, c, d]"
    by (auto simp: length_Suc_conv eval_nat_numeral)
  show ?thesis by (simp add: fs capacity_consumed_def fragments_init_def)
qed

lemma sum_list_nonneg_caps: "list_all (\<lambda>f. 0 \<le> capacity f) fs \<Longrightarrow> 0 \<le> sum_list (map capacity fs)"
  by (induction fs) simp_all

lemma list_all_same_map:
  assumes "list_all (\<lambda>x. f x = c) ys" and "map f xs = map f ys"
  shows "list_all (\<lambda>x. f x = c) xs"
proof -
  have "list_all (\<lambda>v. v = c) (map f ys)" using assms(1) by (simp add: list_all_iff)
  then have "list_all (\<lambda>v. v = c) (map f xs)" by (simp only: assms(2))
  then show ?thesis by (simp add: list_all_iff)
qed

lemma frag_allocation_plain:
  assumes "fragments s = fragments_init" and "frag_allocation R c s = Inr (us, fs, g')"
  shows "\<exists>us0. list_all (\<lambda>u. allocated u = 0) us0 \<and> allocate_plain us0 fragments_init = (us, fs)"
proof -
  obtain ud g1 where d: "draw_users R [0..12 - 1] (frag_rng s) = (ud, g1)"
    by (cases "draw_users R [0..12 - 1] (frag_rng s)")
  with assms(2) obtain us1 where sc: "set_scores ud = Inr us1"
    and al: "allocate c (sort_by_score us1) fragments_init = (us, fs)"
    by (auto simp: frag_allocation_def assms(1) split: sum.splits prod.splits)
  have "list_all (\<lambda>u. allocated u = 0) us1"
    using draw_users_allocated[OF d] set_scores_allocated[OF sc]
    by (rule list_all_same_map)
  then have z: "list_all (\<lambda>u. allocated u = 0) (sort_by_score us1)"
    by (simp add: list_all_iff sort_by_score_def)
  have "allocate_plain (sort_by_score us1) fragments_init = (us, fs)"
    using al allocate_modes_agree[of "sort_by_score us1"] by (cases c) (simp_all add: allocate_def)
  with z show ?thesis by blast
qed

lemma frag_allocation_conserves:
  assumes "fragments s = fragments_init" and "frag_allocation R c s = Inr (us, fs, g')"
  shows "capacity_consumed fs = total_allocated us" and "total_allocated us \<le> 155"
    and "0 \<le> total_allocated us" and "reset_capacities fs = fragments_init"
proof -
  from frag_allocation_plain[OF assms] obtain us0 where z: "list_all (\<lambda>u. allocated u = 0) us0"
    and al: "allocate_plain us0 fragments_init = (us, fs)" by blast
  have nn: "list_all (\<lambda>f. 0 \<le> capacity f) fragments_init" by (simp add: fragments_init_def)
  have s155: "sum_list (map capacity fragments_init) = 155" by (simp add: fragments_init_def)
  from allocate_plain_conserves[OF al nn] sum_list_all_zero[OF z] s155
  have c: "total_allocated us + sum_list (map capacity fs) = 155"
    and nn': "list_all (\<lambda>f. 0 \<le> capacity f) fs" and ge: "0 \<le> total_allocated us"
    by (simp_all add: total_allocated_def)
  have "length (map frag_id fs) = 4" using allocate_plain_layout[OF al] by (simp add: fragments_init_def)
  then have len: "length fs = 4" by simp
  show "capacity_consumed fs = total_allocated us" using capacity_consumed_eq[OF len] c by simp
  show "total_allocated us \<le> 155" using c sum_list_nonneg_caps[OF nn'] by simp
  show "0 \<le> total_allocated us" by (rule ge)
  show "reset_capacities fs = fragments_init"
    using allocate_plain_layout[OF al] by (simp add: reset_capacities_init)
qed


lemma draw_user_deadline:
  "randint_in_range R \<Longrightarrow> draw_user R i g = (u, g') \<Longrightarrow> deadline u \<noteq> 0"
proof -
  assume r: "randint_in_range R" and d: "draw_user R i g = (u, g')"
  have p: "\<And>lo hi h. lo < hi \<Longrightarrow> 0 < lo \<Longrightarrow> fst (np_randint R lo hi h) \<noteq> 0"
    using r unfolding randint_in_range_def by (metis less_le_not_le)
  have "fst (np_randint R 3 6 h) \<noteq> 0" "fst (np_randint R 10 20 h) \<noteq> 0"
    "fst (np_randint R 30 50 h) \<noteq> 0" for h
    by (rule p; simp)+
  then show ?thesis using d
    by (auto simp: draw_user_def split: if_splits prod.splits) (metis fst_conv)+
qed

lemma draw_users_deadline:
  "randint_in_range R \<Longrightarrow> draw_users R is g = (us, g') \<Longrightarrow> list_all (\<lambda>u. deadline u \<noteq> 0) us"
proof (induction "is" arbitrary: g us g')
  case Nil
  then show ?case by simp
next
  case (Cons i "is")
  obtain u g1 where a: "draw_user R i g = (u, g1)" by (cases "draw_user R i g")
  obtain us1 g2 where b: "draw_users R is g1 = (us1, g2)" by (cases "draw_users R is g1")
  from Cons.prems(2) a b have "us = u # us1" by simp
  with Cons.IH[OF Cons.prems(1) b] draw_user_deadline[OF Cons.prems(1) a] show ?case by simp
qed

lemma set_scores_returns:
  "list_all (\<lambda>u. deadline u \<noteq> 0) us \<Longrightarrow> list_all (\<lambda>u. allocated u = 0) us \<Longrightarrow>
     \<exists>us'. set_scores us = Inr us'"
  by (induction us) auto

lemma frag_allocation_returns:
  assumes "randint_in_range R"
  shows "\<exists>us fs g'. frag_allocation R c s = Inr (us, fs, g')"
proof -
  obtain ud g1 where d: "draw_users R [0..12 - 1] (frag_rng s) = (ud, g1)"
    by (cases "draw_users R [0..12 - 1] (frag_rng s)")
  from set_scores_returns[OF draw_users_deadline[OF assms d] draw_users_allocated[OF d]]
  obtain us1 where sc: "set_scores ud = Inr us1" by blast
  obtain us fs where "allocate c (sort_by_score us1) (fragments s) = (us, fs)"
    by (cases "allocate c (sort_by_score us1) (fragments s)")
  with d sc show ?thesis by (simp add: frag_allocation_def)
qed

lemma frag_slot_lengths:
  assumes "frag_slot R c s = Inr s'"
  shows "length (utilization_history s') = Suc (length (utilization_history s))"
    and "length (frag_throughput_history s') = Suc (length (frag_throughput_history s))"
    and "length (urllc_compliance_history s') = Suc (length (urllc_compliance_history s))"
  using assms by (auto simp: frag_slot_def split: sum.splits prod.splits)

lemma frag_slot_returns: "randint_in_range R \<Longrightarrow> \<exists>s'. frag_slot R c s = Inr s'"
  using frag_allocation_returns[of R c s] by (auto simp: frag_slot_def)

lemma frag_run_lengths:
  "frag_run R c n s = Inr s' \<Longrightarrow>
     length (utilization_history s') = length (utilization_history s) + n
     \<and> length (frag_throughput_history s') = length (frag_throughput_history s) + n
     \<and> length (urllc_compliance_history s') = length (urllc_compliance_history s) + n"
proof (induction n arbitrary: s')
  case 0
  then show ?case by simp
next
  case (Suc n)
  from Suc.prems obtain s1 where r: "frag_run R c n s = Inr s1" and sl: "frag_slot R c s1 = Inr s'"
    by (auto split: sum.splits)
  from Suc.IH[OF r] frag_slot_lengths[OF sl] show ?case by simp
qed

lemma frag_run_returns: "randint_in_range R \<Longrightarrow> \<exists>s'. frag_run R c n s = Inr s'"
proof (induction n)
  case 0
  then show ?case by simp
next
  case (Suc n)
  then obtain s1 where "frag_run R c n s = Inr s1" by blast
  with frag_slot_returns[OF Suc.prems, of c s1] show ?case by auto
qed

lemma counting_rng_in_range: "randint_in_range counting_rng"
  by (simp add: randint_in_range_def counting_rng_def)

text \<open>C8: on the four fragments of lines 198-203 the clustering of lines 248-257 yields
  the clusters [fragment 0, fragment 1], [fragment 2], [fragment 3], in every slot of a run
  (the fragments are back at their initial values when a slot starts); flattened, that is
  the order of the fragment list, so that with the same generator and the same initial
  generator state the two modes of \<^verbatim>\<open>simulate_fragmentation_aware\<close> return the same result
  in every field (and raise alike).\<close>

theorem clustering_is_fragment_order:
  "make_clusters fragments_init = [[0, 1], [2], [3]]
   \<and> concat (make_clusters fragments_init) = [0..<length fragments_init]
   \<and> (\<forall>t s. frag_run R c t (frag_init g) = Inr s
         \<longrightarrow> make_clusters (fragments s) = [[0, 1], [2], [3]])
   \<and> simulate_fragmentation_aware R True num_slots g
       = simulate_fragmentation_aware R False num_slots g"
proof -
  have i: "fragments (frag_init g) = fragments_init" by (simp add: frag_init_def)
  have "concat (make_clusters fragments_init) = [0..<length fragments_init]"
    by (simp add: make_clusters_init) (simp add: fragments_init_def upt_rec)
  moreover have "\<forall>t s. frag_run R c t (frag_init g) = Inr s
      \<longrightarrow> make_clusters (fragments s) = [[0, 1], [2], [3]]"
    using frag_run_fragments[OF i] make_clusters_init by metis
  moreover have "simulate_fragmentation_aware R True num_slots g
      = simulate_fragmentation_aware R False num_slots g"
    by (simp add: simulate_fragmentation_aware_def frag_run_modes_agree[OF i])
  ultimately show ?thesis using make_clusters_init by blast
qed

theorem clustering_is_fragment_order_witness:
  "(\<exists>s. frag_run counting_rng True 2 (frag_init 0) = Inr s
        \<and> make_clusters (fragments s) = [[0, 1], [2], [3]])
   \<and> simulate_fragmentation_aware counting_rng True 2 0
       = simulate_fragmentation_aware counting_rng False 2 0"
proof -
  obtain s where "frag_run counting_rng True 2 (frag_init 0) = Inr s"
    using frag_run_returns[OF counting_rng_in_range] by blast
  with clustering_is_fragment_order[of counting_rng True 0 2] show ?thesis by blast
qed

text \<open>C6: without clustering, in every slot of a run, the capacity consumed from the
  fragments during the slot is at most 155 and equals the sum of the users' \<^verbatim>\<open>allocated\<close>
  counters; that sum is the \<^verbatim>\<open>total_allocated\<close> from which the slot's utilization and
  throughput samples are computed.\<close>

theorem allocation_conservation:
  assumes "frag_run R False t (frag_init g) = Inr s"
    and "frag_allocation R False s = Inr (us, fs, g')"
  shows "capacity_consumed fs \<le> 155 \<and> capacity_consumed fs = sum_list (map allocated us)
     \<and> total_allocated us = sum_list (map allocated us)
     \<and> frag_slot R False s =
         Inr \<lparr>fragments = fragments_init,
              utilization_history =
                utilization_history s @ [real_of_int (total_allocated us) / 155 * 100],
              frag_throughput_history = frag_throughput_history s @ [total_allocated us],
              urllc_compliance_history = urllc_compliance_history s @ [urllc_compliance_of us],
              frag_rng = g'\<rparr>"
proof -
  have "fragments (frag_init g) = fragments_init" by (simp add: frag_init_def)
  from frag_run_fragments[OF this assms(1)] have f: "fragments s = fragments_init" .
  note c = frag_allocation_conserves[OF f assms(2)]
  have "frag_slot R False s =
         Inr \<lparr>fragments = fragments_init,
              utilization_history =
                utilization_history s @ [real_of_int (total_allocated us) / 155 * 100],
              frag_throughput_history = frag_throughput_history s @ [total_allocated us],
              urllc_compliance_history = urllc_compliance_history s @ [urllc_compliance_of us],
              frag_rng = g'\<rparr>"
    by (simp add: frag_slot_def assms(2) c(4) utilization_of_def)
  with c show ?thesis by (simp add: total_allocated_def)
qed

theorem allocation_conservation_witness:
  "\<exists>s us fs g'. frag_run counting_rng False 2 (frag_init 0) = Inr s
     \<and> frag_allocation counting_rng False s = Inr (us, fs, g')
     \<and> capacity_consumed fs \<le> 155 \<and> capacity_consumed fs = sum_list (map allocated us)
     \<and> total_allocated us = sum_list (map allocated us)"
proof -
  obtain s where s: "frag_run counting_rng False 2 (frag_init 0) = Inr s"
    using frag_run_returns[OF counting_rng_in_range] by blast
  obtain us fs g' where a: "frag_allocation counting_rng False s = Inr (us, fs, g')"
    using frag_allocation_returns[OF counting_rng_in_range] by blast
  from allocation_conservation[OF s a] s a show ?thesis by blast
qed

subsection \<open>History truncation\<close>

lemma csi_run_lengths:
  "csi_run R alpha n s = Inr s' \<Longrightarrow>
     length (spectral_efficiency s') = length (spectral_efficiency s) + n
     \<and> length (retransmission_rates s') = length (retransmission_rates s) + n"
proof (induction n arbitrary: s')
  case 0
  then show ?case by simp
next
  case (Suc n)
  from Suc.prems obtain s1 where r: "csi_run R alpha n s = Inr s1"
    and sl: "csi_slot R alpha s1 = Inr s'" by (auto split: sum.splits)
  from Suc.IH[OF r] csi_slot_Inr(2,3)[OF sl] show ?case by simp
qed

lemma returned_histories_length:
  "simulate_csi_smoothing R alpha num_slots num_users g = Inr (r, g') \<Longrightarrow>
     length (se_history r) = min (nat num_slots) 50
     \<and> length (retrans_history r) = min (nat num_slots) 50"
  "simulate_fragmentation_aware R c num_slots g = Inr (fr, g'') \<Longrightarrow>
     length (util_history fr) = min (nat num_slots) 50
     \<and> length (frag_result_throughput_history fr) = min (nat num_slots) 50"
proof -
  assume "simulate_csi_smoothing R alpha num_slots num_users g = Inr (r, g')"
  then obtain s where s: "csi_run R alpha (nat num_slots) (csi_init num_users g) = Inr s"
    and r: "r = csi_finish s"
    by (auto simp: simulate_csi_smoothing_def split: sum.splits)
  from csi_run_lengths[OF s]
  show "length (se_history r) = min (nat num_slots) 50
     \<and> length (retrans_history r) = min (nat num_slots) 50"
    by (simp add: r csi_finish_def length_last50 csi_init_def)
next
  assume "simulate_fragmentation_aware R c num_slots g = Inr (fr, g'')"
  then obtain s where s: "frag_run R c (nat num_slots) (frag_init g) = Inr s"
    and r: "fr = frag_finish s"
    by (auto simp: simulate_fragmentation_aware_def split: sum.splits)
  from frag_run_lengths[OF s]
  show "length (util_history fr) = min (nat num_slots) 50
     \<and> length (frag_result_throughput_history fr) = min (nat num_slots) 50"
    by (simp add: r frag_finish_def length_last50 frag_init_def)
qed

text \<open>C4: with \<open>num_slots = 200\<close> every history that a simulator returns has length 50, with
  \<open>num_slots = 10\<close> length 10.  \<^verbatim>\<open>simulate_das\<close> always returns; \<^verbatim>\<open>simulate_csi_smoothing\<close>
  returns when there is at least one user; \<^verbatim>\<open>simulate_fragmentation_aware\<close> returns when the
  generator keeps \<^verbatim>\<open>randint\<close> within its range; and whatever either of them returns, on
  any generator, has histories of these lengths.\<close>

theorem history_truncation:
  assumes "0 < num_users" and "randint_in_range R"
  shows "length (das_throughput_history (fst (simulate_das R beta 200 das_users seed g))) = 50
     \<and> length (das_throughput_history (fst (simulate_das R beta 10 das_users seed g))) = 10
     \<and> (\<exists>r g'. simulate_csi_smoothing R alpha 200 num_users g = Inr (r, g')
           \<and> length (se_history r) = 50 \<and> length (retrans_history r) = 50)
     \<and> (\<exists>r g'. simulate_csi_smoothing R alpha 10 num_users g = Inr (r, g')
           \<and> length (se_history r) = 10 \<and> length (retrans_history r) = 10)
     \<and> (\<exists>r g'. simulate_fragmentation_aware R c 200 g = Inr (r, g')
           \<and> length (util_history r) = 50 \<and> length (frag_result_throughput_history r) = 50)
     \<and> (\<exists>r g'. simulate_fragmentation_aware R c 10 g = Inr (r, g')
           \<and> length (util_history r) = 10 \<and> length (frag_result_throughput_history r) = 10)
     \<and> (\<forall>a m nu h r g'. simulate_csi_smoothing R a m nu h = Inr (r, g')
           \<longrightarrow> length (se_history r) = min (nat m) 50
               \<and> length (retrans_history r) = min (nat m) 50)
     \<and> (\<forall>c' m h r g'. simulate_fragmentation_aware R c' m h = Inr (r, g')
           \<longrightarrow> length (util_history r) = min (nat m) 50
               \<and> length (frag_result_throughput_history r) = min (nat m) 50)"
proof -
  have any: "(\<forall>a m nu h r g'. simulate_csi_smoothing R a m nu h = Inr (r, g')
           \<longrightarrow> length (se_history r) = min (nat m) 50
               \<and> length (retrans_history r) = min (nat m) 50)
     \<and> (\<forall>c' m h r g'. simulate_fragmentation_aware R c' m h = Inr (r, g')
           \<longrightarrow> length (util_history r) = min (nat m) 50
               \<and> length (frag_result_throughput_history r) = min (nat m) 50)"
    using returned_histories_length(1)[of R] returned_histories_length(2)[of R] by blast
  have u: "csi_users (csi_init num_users g) \<noteq> []"
    using assms(1) by (simp add: csi_init_def upto.simps)
  have csi: "\<exists>r g'. simulate_csi_smoothing R alpha (int n) num_users g = Inr (r, g')
           \<and> length (se_history r) = min n 50 \<and> length (retrans_history r) = min n 50" for n
    using csi_run_returns[OF u, of R alpha n]
    by (auto simp: simulate_csi_smoothing_def csi_finish_def length_last50 csi_init_def)
  have frag: "\<exists>r g'. simulate_fragmentation_aware R c (int n) g = Inr (r, g')
           \<and> length (util_history r) = min n 50
           \<and> length (frag_result_throughput_history r) = min n 50" for n
  proof -
    obtain s where s: "frag_run R c n (frag_init g) = Inr s"
      using frag_run_returns[OF assms(2)] by blast
    from frag_run_lengths[OF s] s show ?thesis
      by (simp add: simulate_fragmentation_aware_def frag_finish_def length_last50 frag_init_def)
  qed
  have "length (das_throughput_history (fst (simulate_das R beta 200 das_users seed g))) = 50"
    "length (das_throughput_history (fst (simulate_das R beta 10 das_users seed g))) = 10"
    by (simp_all add: simulate_das_history)
  moreover have "\<exists>r g'. simulate_csi_smoothing R alpha 200 num_users g = Inr (r, g')
           \<and> length (se_history r) = 50 \<and> length (retrans_history r) = 50"
    using csi[of 200] by simp
  moreover have "\<exists>r g'. simulate_csi_smoothing R alpha 10 num_users g = Inr (r, g')
           \<and> length (se_history r) = 10 \<and> length (retrans_history r) = 10"
    using csi[of 10] by simp
  moreover have "\<exists>r g'. simulate_fragmentation_aware R c 200 g = Inr (r, g')
           \<and> length (util_history r) = 50 \<and> length (frag_result_throughput_history r) = 50"
    using frag[of 200] by simp
  moreover have "\<exists>r g'. simulate_fragmentation_aware R c 10 g = Inr (r, g')
           \<and> length (util_history r) = 10 \<and> length (frag_result_throughput_history r) = 10"
    using frag[of 10] by simp
  ultimately show ?thesis using any by blast
qed

theorem history_truncation_witness:
  "(0::int) < 15 \<and> randint_in_range counting_rng
   \<and> length (das_throughput_history (fst (simulate_das counting_rng 0.7 200 15 None 0))) = 50
   \<and> (\<exists>r g'. simulate_csi_smoothing counting_rng 0.2 200 15 0 = Inr (r, g')
         \<and> length (se_history r) = 50 \<and> length (retrans_history r) = 50)
   \<and> (\<exists>r g'. simulate_fragmentation_aware counting_rng True 10 0 = Inr (r, g')
         \<and> length (util_history r) = 10 \<and> length (frag_result_throughput_history r) = 10)"
proof -
  have h: "(0::int) < 15" by simp
  from history_truncation[OF h counting_rng_in_range, of "0.7" 15 None 0 "0.2" True] h
    counting_rng_in_range
  show ?thesis by blast
qed

subsection \<open>CSI: one transmission per slot\<close>

lemma update_cqi_counters:
  "update_cqi R alpha us g = (us', g') \<Longrightarrow>
     map successful_tx us' = map successful_tx us \<and> map retransmissions us' = map retransmissions us"
proof (induction us arbitrary: us' g g')
  case Nil
  then show ?case by simp
next
  case (Cons u us)
  then show ?case
    by (auto simp: Let_def split: prod.splits if_splits)
qed

lemma set_metrics_counters:
  "map successful_tx (set_metrics us) = map successful_tx us"
  "map retransmissions (set_metrics us) = map retransmissions us"
  by (simp_all add: set_metrics_def)

lemma sum_list_map_update:
  fixes f :: "'a \<Rightarrow> nat"
  shows "i < length xs \<Longrightarrow> sum_list (map f (xs[i := x])) + f (xs ! i) = sum_list (map f xs) + f x"
proof (induction xs arbitrary: i)
  case Nil
  then show ?case by simp
next
  case (Cons y ys)
  then show ?case by (cases i) (simp_all add: add.assoc add.left_commute)
qed

lemma transmit_counters:
  assumes "transmit R us i g = (us', g')" and "i < length us"
  shows "one_counter_incremented us us' i"
    and "total_tx us' = Suc (total_tx us)"
    and "sum_list (map retransmissions us') \<le> sum_list (map retransmissions us) + 1"
    and "sum_list (map retransmissions us) \<le> sum_list (map retransmissions us')"
proof -
  let ?su = "us ! i"
  let ?a = "?su\<lparr>successful_tx := successful_tx ?su + 1,
      csi_avg_throughput := 0.9 * csi_avg_throughput ?su + 0.1 * smoothed_cqi ?su\<rparr>"
  let ?b = "?su\<lparr>retransmissions := retransmissions ?su + 1\<rparr>"
  from assms(1) have d: "us' = us[i := ?a] \<or> us' = us[i := ?b]"
    by (auto simp: transmit_def Let_def split: prod.splits if_splits)
  from d assms(2) show "one_counter_incremented us us' i"
    by (auto simp: one_counter_incremented_def)
  have t: "total_tx (us[i := x]) + (successful_tx ?su + retransmissions ?su)
      = total_tx us + (successful_tx x + retransmissions x)" for x
    unfolding total_tx_def
    using sum_list_map_update[OF assms(2), of "\<lambda>u. successful_tx u + retransmissions u" x] .
  from d t[of ?a] t[of ?b] show "total_tx us' = Suc (total_tx us)" by auto
  have r: "sum_list (map retransmissions (us[i := x])) + retransmissions ?su
      = sum_list (map retransmissions us) + retransmissions x" for x
    using sum_list_map_update[OF assms(2), of retransmissions x] .
  from d r[of ?a] r[of ?b]
  show "sum_list (map retransmissions us') \<le> sum_list (map retransmissions us) + 1"
    by auto
  from d r[of ?a] r[of ?b]
  show "sum_list (map retransmissions us) \<le> sum_list (map retransmissions us')"
    by auto
qed

lemma total_tx_split:
  "total_tx us = sum_list (map successful_tx us) + sum_list (map retransmissions us)"
  unfolding total_tx_def by (induction us) simp_all

lemma scale_percent: "0 \<le> x \<Longrightarrow> x \<le> 1 \<Longrightarrow> 0 \<le> x * 100 \<and> x * 100 \<le> (100::real)"
  by auto

lemma percent_range:
  fixes a b :: nat
  assumes "a \<le> b" and "0 < b"
  shows "0 \<le> real a / real b * 100 \<and> real a / real b * 100 \<le> 100"
proof -
  have "real a \<le> real b" using assms(1) by simp
  moreover have "0 < real b" using assms(2) by simp
  ultimately have "real a / real b \<le> 1" by (simp only: divide_le_eq_1_pos)
  moreover have "0 \<le> real a / real b" by simp
  ultimately show ?thesis by (intro scale_percent)
qed

lemma retrans_rate_range: "0 \<le> retrans_rate us \<and> retrans_rate us \<le> 100"
proof -
  have "sum_list (map retransmissions us) \<le> max (total_tx us) 1"
    by (simp add: total_tx_split)
  moreover have "0 < max (total_tx us) 1" by simp
  ultimately show ?thesis unfolding retrans_rate_def by (rule percent_range)
qed

lemma total_tx_cong:
  "map successful_tx us' = map successful_tx us \<Longrightarrow> map retransmissions us' = map retransmissions us
     \<Longrightarrow> total_tx us' = total_tx us"
  by (simp only: total_tx_split)

lemma csi_slot_step:
  assumes "csi_slot R alpha s = Inr s'"
  shows "\<exists>i us2. one_counter_incremented us2 (csi_users s') i
          \<and> map successful_tx us2 = map successful_tx (csi_users s)
          \<and> map retransmissions us2 = map retransmissions (csi_users s)"
    and "total_tx (csi_users s') = Suc (total_tx (csi_users s))"
    and "retransmission_rates s' = retransmission_rates s @ [retrans_rate (csi_users s')]"
proof -
  obtain us1 g1 where u: "update_cqi R alpha (csi_users s) (csi_rng s) = (us1, g1)"
    by (cases "update_cqi R alpha (csi_users s) (csi_rng s)")
  from assms u obtain i where i: "py_argmax metric (set_metrics us1) = Some i"
    by (auto simp: csi_slot_def Let_def split: option.splits)
  obtain us3 g2 where t: "transmit R (set_metrics us1) i g1 = (us3, g2)"
    by (cases "transmit R (set_metrics us1) i g1")
  from assms u i t have s': "csi_users s' = us3"
    "retransmission_rates s' = retransmission_rates s @ [retrans_rate us3]"
    by (auto simp: csi_slot_def Let_def)
  note c = transmit_counters[OF t py_argmax_Some[OF i]]
  have m: "map successful_tx (set_metrics us1) = map successful_tx (csi_users s)"
    "map retransmissions (set_metrics us1) = map retransmissions (csi_users s)"
    using update_cqi_counters[OF u] by (simp_all add: set_metrics_counters)
  show "\<exists>i us2. one_counter_incremented us2 (csi_users s') i
          \<and> map successful_tx us2 = map successful_tx (csi_users s)
          \<and> map retransmissions us2 = map retransmissions (csi_users s)"
    using c(1) m s'(1) by blast
  show "total_tx (csi_users s') = Suc (total_tx (csi_users s))"
    using c(2) total_tx_cong[OF m] s'(1) by simp
  show "retransmission_rates s' = retransmission_rates s @ [retrans_rate (csi_users s')]"
    using s' by simp
qed


lemma one_counter_incremented_cong:
  assumes "one_counter_incremented us2 us' i"
    and "map successful_tx us2 = map successful_tx us"
    and "map retransmissions us2 = map retransmissions us"
  shows "one_counter_incremented us us' i"
proof -
  have l: "length us2 = length us" using assms(2) by (rule map_eq_imp_length_eq)
  have a: "successful_tx (us2 ! j) = successful_tx (us ! j)" if "j < length us" for j
    using that l nth_map[of j us2 successful_tx] nth_map[of j us successful_tx] assms(2) by simp
  have b: "retransmissions (us2 ! j) = retransmissions (us ! j)" if "j < length us" for j
    using that l nth_map[of j us2 retransmissions] nth_map[of j us retransmissions] assms(3)
    by simp
  show ?thesis using assms(1) l a b unfolding one_counter_incremented_def by auto
qed

lemma csi_run_total:
  "csi_run R alpha n s0 = Inr s \<Longrightarrow> total_tx (csi_users s) = total_tx (csi_users s0) + n"
proof (induction n arbitrary: s)
  case 0
  then show ?case by simp
next
  case (Suc n)
  from Suc.prems obtain s1 where r: "csi_run R alpha n s0 = Inr s1" and sl: "csi_slot R alpha s1 = Inr s"
    by (auto split: sum.splits)
  from Suc.IH[OF r] csi_slot_step(2)[OF sl] show ?case by simp
qed

lemma total_tx_init: "total_tx (csi_users (csi_init num_users g)) = 0"
  by (simp add: csi_init_def total_tx_def new_csi_user_def comp_def)

text \<open>C10: in \<^verbatim>\<open>simulate_csi_smoothing\<close> with at least one user, every slot increments
  exactly one counter (\<^verbatim>\<open>successful_tx\<close> or \<^verbatim>\<open>retransmissions\<close>) of exactly one user by 1.
  So after \<open>t\<close> completed slots the counters sum to \<open>t\<close>, and in the slot that follows the
  denominator \<^verbatim>\<open>max(total_tx, 1)\<close> is \<^verbatim>\<open>total_tx\<close> itself, which is \<open>t + 1\<close>, and the sample
  appended to the retransmission rates lies between 0 and 100.\<close>

theorem csi_one_transmission_per_slot:
  assumes "0 < num_users"
  shows "\<exists>s s'. csi_run R alpha t (csi_init num_users g) = Inr s \<and> csi_slot R alpha s = Inr s'
     \<and> total_tx (csi_users s) = t
     \<and> (\<exists>i. one_counter_incremented (csi_users s) (csi_users s') i)
     \<and> total_tx (csi_users s') = t + 1
     \<and> max (total_tx (csi_users s')) 1 = total_tx (csi_users s')
     \<and> retransmission_rates s' = retransmission_rates s
          @ [real (sum_list (map retransmissions (csi_users s')))
               / real (total_tx (csi_users s')) * 100]
     \<and> 0 \<le> last (retransmission_rates s') \<and> last (retransmission_rates s') \<le> 100"
proof -
  have u: "csi_users (csi_init num_users g) \<noteq> []"
    using assms by (simp add: csi_init_def upto.simps)
  from csi_run_returns[OF u, of R alpha t] obtain s
    where s: "csi_run R alpha t (csi_init num_users g) = Inr s"
      and l: "length (csi_users s) = length (csi_users (csi_init num_users g))" by blast
  from u l have "csi_users s \<noteq> []" by auto
  from csi_slot_returns[OF this] obtain s' where s': "csi_slot R alpha s = Inr s'" by blast
  have t: "total_tx (csi_users s) = t" using csi_run_total[OF s] by (simp add: total_tx_init)
  note st = csi_slot_step[OF s']
  from st(1) obtain i where i: "one_counter_incremented (csi_users s) (csi_users s') i"
    using one_counter_incremented_cong by blast
  have t': "total_tx (csi_users s') = t + 1" using st(2) t by simp
  then have m: "max (total_tx (csi_users s')) 1 = total_tx (csi_users s')" by simp
  have r: "retransmission_rates s' = retransmission_rates s
          @ [real (sum_list (map retransmissions (csi_users s')))
               / real (total_tx (csi_users s')) * 100]"
    using st(3) m by (simp add: retrans_rate_def)
  have "last (retransmission_rates s') = retrans_rate (csi_users s')" using st(3) by simp
  with retrans_rate_range[of "csi_users s'"]
  have "0 \<le> last (retransmission_rates s') \<and> last (retransmission_rates s') \<le> 100" by simp
  with s s' t i t' m r show ?thesis by blast
qed

theorem csi_one_transmission_per_slot_witness:
  "(0::int) < 15 \<and> (\<exists>s s'. csi_run counting_rng 0.2 3 (csi_init 15 0) = Inr s
     \<and> csi_slot counting_rng 0.2 s = Inr s'
     \<and> total_tx (csi_users s) = 3
     \<and> (\<exists>i. one_counter_incremented (csi_users s) (csi_users s') i)
     \<and> total_tx (csi_users s') = 3 + 1
     \<and> 0 \<le> last (retransmission_rates s') \<and> last (retransmission_rates s') \<le> 100)"
proof -
  have h: "(0::int) < 15" by simp
  from csi_one_transmission_per_slot[OF h, of counting_rng "0.2" 3 0] h show ?thesis by blast
qed

subsection \<open>DAS: what a slot does to the balance of a user\<close>

lemma static_user_id: "map static us' = map static us \<Longrightarrow> map user_id us' = map user_id us"
proof -
  assume "map static us' = map static us"
  then have "map (fst \<circ> static) us' = map (fst \<circ> static) us"
    by (metis map_map)
  then show ?thesis by (simp add: static_def comp_def)
qed

lemma generate_packets_other:
  "generate_packets R us tp g = (us', tp', g') \<Longrightarrow> k \<notin> user_id ` set us \<Longrightarrow> tp' k = tp k"
proof (induction us arbitrary: tp g us' tp' g')
  case Nil
  then show ?case by simp
next
  case (Cons u us)
  obtain r g1 where r: "np_rand R g = (r, g1)" by (cases "np_rand R g")
  show ?case
  proof (cases "r < 0.3")
    case True
    obtain sz g2 where z: "np_uniform R 1 5 g1 = (sz, g2)" by (cases "np_uniform R 1 5 g1")
    let ?tp = "tp(user_id u := tp (user_id u) + 1)"
    obtain us1 tp1 g3 where rec: "generate_packets R us ?tp g2 = (us1, tp1, g3)"
      by (cases "generate_packets R us ?tp g2")
    from Cons.prems(1) r True z rec have "tp' = tp1" by simp
    moreover have "tp1 k = ?tp k" using Cons.IH[OF rec] Cons.prems(2) by simp
    ultimately show ?thesis using Cons.prems(2) by simp
  next
    case False
    obtain us1 tp1 g3 where rec: "generate_packets R us tp g1 = (us1, tp1, g3)"
      by (cases "generate_packets R us tp g1")
    from Cons.prems(1) r False rec have "tp' = tp1" by simp
    moreover have "tp1 k = tp k" using Cons.IH[OF rec] Cons.prems(2) by simp
    ultimately show ?thesis by simp
  qed
qed

lemma balance_tp_cong:
  "tp' (user_id u) = tp (user_id u) \<Longrightarrow> balance tp' dl tmo u = balance tp dl tmo u"
  by (simp add: balance_def)

lemma generate_packets_balance:
  assumes "distinct (map user_id us)" and "generate_packets R us tp g = (us', tp', g')"
  shows "map static us' = map static us
     \<and> map (balance tp' dl tmo) us' = map (balance tp dl tmo) us"
  using assms
proof (induction us arbitrary: tp g us' tp' g')
  case Nil
  then show ?case by simp
next
  case (Cons u us)
  have d: "distinct (map user_id us)" and nu: "user_id u \<notin> user_id ` set us"
    using Cons.prems(1) by simp_all
  obtain r g1 where r: "np_rand R g = (r, g1)" by (cases "np_rand R g")
  show ?case
  proof (cases "r < 0.3")
    case True
    obtain sz g2 where z: "np_uniform R 1 5 g1 = (sz, g2)" by (cases "np_uniform R 1 5 g1")
    let ?tp = "tp(user_id u := tp (user_id u) + 1)"
    let ?u = "u\<lparr>packets := packets u @ [\<lparr>remaining_time = pdb u, pkt_size = sz\<rparr>]\<rparr>"
    obtain us1 tp1 g3 where rec: "generate_packets R us ?tp g2 = (us1, tp1, g3)"
      by (cases "generate_packets R us ?tp g2")
    from Cons.prems(2) r True z rec have eq: "us' = ?u # us1" "tp' = tp1" by simp_all
    have h: "tp1 (user_id u) = tp (user_id u) + 1"
      using generate_packets_other[OF rec nu] by simp
    have c: "map (balance ?tp dl tmo) us = map (balance tp dl tmo) us"
      using nu by (intro map_cong refl balance_tp_cong) (auto simp: image_iff)
    note ih = Cons.IH[OF d rec]
    have t1: "map static us1 = map static us" using ih by (rule conjunct1)
    have t2: "map (balance tp1 dl tmo) us1 = map (balance tp dl tmo) us"
      using conjunct2[OF ih] c by (rule trans)
    note t = t1 t2
    have "balance tp1 dl tmo ?u = balance tp dl tmo u" using h by (simp add: balance_def)
    moreover have "static ?u = static u" by (simp add: static_def)
    ultimately show ?thesis using t eq by simp
  next
    case False
    obtain us1 tp1 g3 where rec: "generate_packets R us tp g1 = (us1, tp1, g3)"
      by (cases "generate_packets R us tp g1")
    from Cons.prems(2) r False rec have eq: "us' = u # us1" "tp' = tp1" by simp_all
    have "tp1 (user_id u) = tp (user_id u)" using generate_packets_other[OF rec nu] .
    then have "balance tp1 dl tmo u = balance tp dl tmo u" by (rule balance_tp_cong)
    with Cons.IH[OF d rec] eq show ?thesis by simp
  qed
qed

lemma age_packets_balance:
  "map static (age_packets us) = map static us
   \<and> map (balance tp dl tmo) (age_packets us) = map (balance tp dl tmo) us"
  by (simp add: age_packets_def static_def balance_def comp_def)

lemma find_user_Some: "find_user k us = Some i \<Longrightarrow> i < length us \<and> user_id (us ! i) = k"
proof (induction us arbitrary: i)
  case Nil
  then show ?case by simp
next
  case (Cons u us)
  show ?case
  proof (cases "user_id u = k")
    case True
    with Cons.prems show ?thesis by simp
  next
    case False
    with Cons.prems obtain j where "find_user k us = Some j" "i = Suc j"
      by (auto split: option.splits)
    with Cons.IH[of j] show ?thesis by simp
  qed
qed

text \<open>The selected id is a key of \<^verbatim>\<open>priorities\<close>, the keys are the ids of the users, so
  line 85 always finds the selected user.\<close>

lemma dict_set_keys: "fst ` set (dict_set d k v) = insert k (fst ` set d)"
  by (induction d k v rule: dict_set.induct) auto

lemma foldl_dict_set_keys:
  "fst ` set (foldl (\<lambda>d u. dict_set d (user_id u) (priority beta u)) d0 us)
     = fst ` set d0 \<union> user_id ` set us"
  by (induction us arbitrary: d0) (auto simp: dict_set_keys)

lemma compute_priorities_keys: "fst ` set (compute_priorities beta us) = user_id ` set us"
  by (simp add: compute_priorities_def foldl_dict_set_keys)

lemma find_user_None: "find_user k us = None \<longleftrightarrow> k \<notin> user_id ` set us"
  by (induction us) (auto split: option.splits)

lemma select_user_id_found:
  assumes "select_user_id (compute_priorities beta us) = Some k"
  shows "\<exists>i. find_user k us = Some i"
proof -
  let ?d = "compute_priorities beta us"
  from assms obtain i where i: "py_argmax snd ?d = Some i" and k: "k = fst (?d ! i)"
    by (auto simp: select_user_id_def split: option.splits)
  from py_argmax_Some[OF i] have "?d ! i \<in> set ?d" by simp
  then have "k \<in> fst ` set ?d" unfolding k by (rule imageI)
  then have "k \<in> user_id ` set us" by (simp only: compute_priorities_keys)
  then have "find_user k us \<noteq> None" by (simp only: find_user_None not_not)
  then show ?thesis by auto
qed

lemma select_and_serve_cases:
  "select_and_serve beta us dl = (us, dl, 0)
   \<or> (\<exists>k i p ps. select_user_id (compute_priorities beta us) = Some k
         \<and> find_user k us = Some i \<and> packets (us ! i) = p # ps
         \<and> select_and_serve beta us dl =
             (us[i := serve_head (us ! i) p ps],
              dl(k := dl k @ [pdb (us ! i) - remaining_time p]), pkt_size p))"
proof (cases "select_user_id (compute_priorities beta us)")
  case None
  then show ?thesis by (simp add: select_and_serve_def)
next
  case (Some k)
  show ?thesis
  proof (cases "find_user k us")
    case None
    with Some show ?thesis by (simp add: select_and_serve_def)
  next
    case (Some i)
    note fi = this
    from find_user_Some[OF this] have k: "user_id (us ! i) = k" by simp
    show ?thesis
    proof (cases "packets (us ! i)")
      case Nil
      with \<open>select_user_id (compute_priorities beta us) = Some k\<close> fi show ?thesis
        by (simp add: select_and_serve_def)
    next
      case (Cons p ps)
      with \<open>select_user_id (compute_priorities beta us) = Some k\<close> fi k
      have "select_and_serve beta us dl =
             (us[i := serve_head (us ! i) p ps],
              dl(k := dl k @ [pdb (us ! i) - remaining_time p]), pkt_size p)"
        by (simp add: select_and_serve_def serve_head_def Let_def)
      with \<open>select_user_id (compute_priorities beta us) = Some k\<close> fi Cons show ?thesis
        by blast
    qed
  qed
qed

lemma serve_head_balance:
  assumes "distinct (map user_id us)" and "i < length us" and "packets (us ! i) = p # ps"
  shows "map static (us[i := serve_head (us ! i) p ps]) = map static us"
    and "map (balance tp (dl(user_id (us ! i) := dl (user_id (us ! i)) @ [d])) tmo)
           (us[i := serve_head (us ! i) p ps]) = map (balance tp dl tmo) us"
proof -
  let ?k = "user_id (us ! i)"
  let ?us = "us[i := serve_head (us ! i) p ps]"
  let ?dl = "dl(?k := dl ?k @ [d])"
  have "static (serve_head (us ! i) p ps) = static (us ! i)"
    by (simp add: static_def serve_head_def)
  then show "map static ?us = map static us"
    by (simp add: map_update map_update_same)
  show "map (balance tp ?dl tmo) ?us = map (balance tp dl tmo) us"
  proof (rule nth_equalityI)
    show "length (map (balance tp ?dl tmo) ?us) = length (map (balance tp dl tmo) us)" by simp
  next
    fix j assume "j < length (map (balance tp ?dl tmo) ?us)"
    then have j: "j < length us" by simp
    show "map (balance tp ?dl tmo) ?us ! j = map (balance tp dl tmo) us ! j"
    proof (cases "j = i")
      case True
      with j assms(3) show ?thesis by (simp add: balance_def serve_head_def)
    next
      case False
      have "user_id (us ! j) \<noteq> ?k"
        using nth_eq_iff_index_eq[of "map user_id us" j i] assms(1,2) j False by simp
      with j False show ?thesis by (simp add: balance_def)
    qed
  qed
qed

lemma select_and_serve_balance:
  assumes "distinct (map user_id us)" and "select_and_serve beta us dl = (us', dl', tx)"
  shows "map static us' = map static us
     \<and> map (balance tp dl' tmo) us' = map (balance tp dl tmo) us"
proof -
  from select_and_serve_cases[of beta us dl] show ?thesis
  proof
    assume "select_and_serve beta us dl = (us, dl, 0)"
    with assms(2) show ?thesis by simp
  next
    assume "\<exists>k i p ps. select_user_id (compute_priorities beta us) = Some k
         \<and> find_user k us = Some i \<and> packets (us ! i) = p # ps
         \<and> select_and_serve beta us dl =
             (us[i := serve_head (us ! i) p ps],
              dl(k := dl k @ [pdb (us ! i) - remaining_time p]), pkt_size p)"
    then obtain k i p ps where fi: "find_user k us = Some i" and pk: "packets (us ! i) = p # ps"
      and r: "select_and_serve beta us dl =
             (us[i := serve_head (us ! i) p ps],
              dl(k := dl k @ [pdb (us ! i) - remaining_time p]), pkt_size p)" by blast
    from find_user_Some[OF fi] have i: "i < length us" and k: "user_id (us ! i) = k" by simp_all
    from r assms(2) have e: "us' = us[i := serve_head (us ! i) p ps]"
      "dl' = dl(k := dl k @ [pdb (us ! i) - remaining_time p])" by simp_all
    have "map static us' = map static us"
      unfolding e by (rule serve_head_balance(1)[OF assms(1) i pk])
    moreover have "map (balance tp dl' tmo) us' = map (balance tp dl tmo) us"
      unfolding e k[symmetric] by (rule serve_head_balance(2)[OF assms(1) i pk])
    ultimately show ?thesis by blast
  qed
qed

lemma check_timeouts_users: "fst (check_timeouts us tmo) = map sweep us"
  by (induction us arbitrary: tmo) (simp_all add: Let_def sweep_def split_beta)

lemma check_timeouts_other:
  "k \<notin> user_id ` set us \<Longrightarrow> snd (check_timeouts us tmo) k = tmo k"
  by (induction us arbitrary: tmo) (simp_all add: Let_def split_beta)

lemma check_timeouts_count:
  "distinct (map user_id us) \<Longrightarrow> u \<in> set us \<Longrightarrow>
     snd (check_timeouts us tmo) (user_id u) = tmo (user_id u) + expired_count u"
proof (induction us arbitrary: tmo)
  case Nil
  then show ?case by simp
next
  case (Cons v us)
  let ?tmo = "tmo(user_id v := tmo (user_id v) + expired_count v)"
  have s: "snd (check_timeouts (v # us) tmo) = snd (check_timeouts us ?tmo)"
    by (simp add: Let_def expired_count_def split_beta)
  have d: "distinct (map user_id us)" and nv: "user_id v \<notin> user_id ` set us"
    using Cons.prems(1) by simp_all
  show ?case
  proof (cases "u \<in> set us")
    case True
    then have "user_id u \<noteq> user_id v" using nv by (auto simp: image_iff)
    then have "?tmo (user_id u) = tmo (user_id u)" by simp
    moreover have "snd (check_timeouts us ?tmo) (user_id u) = ?tmo (user_id u) + expired_count u"
      by (rule Cons.IH[OF d True])
    ultimately show ?thesis by (simp only: s)
  next
    case False
    with Cons.prems(2) have uv: "u = v" by simp
    have "snd (check_timeouts us ?tmo) (user_id v) = ?tmo (user_id v)"
      by (rule check_timeouts_other[OF nv])
    moreover have "?tmo (user_id v) = tmo (user_id v) + expired_count v" by simp
    ultimately show ?thesis by (simp only: s uv)
  qed
qed

lemma sweep_balance:
  "balance tp dl (tmo(user_id u := tmo (user_id u) + expired_count u)) (sweep u)
     = balance tp dl tmo u"
proof -
  have "length (filter (\<lambda>p. remaining_time p > 0) (packets u))
       + length (filter (\<lambda>p. remaining_time p \<le> 0) (packets u)) = length (packets u)"
    using sum_length_filter_compl[of "\<lambda>p. remaining_time p > 0" "packets u"]
    by (simp add: not_less)
  then show ?thesis by (simp add: balance_def sweep_def expired_count_def)
qed

lemma check_timeouts_balance:
  assumes "distinct (map user_id us)" and "check_timeouts us tmo = (us', tmo')"
  shows "map static us' = map static us
     \<and> map (balance tp dl tmo') us' = map (balance tp dl tmo) us"
proof -
  have us': "us' = map sweep us" using check_timeouts_users[of us tmo] assms(2) by simp
  have tmo': "tmo' = snd (check_timeouts us tmo)" using assms(2) by simp
  have "balance tp dl tmo' (sweep u) = balance tp dl tmo u" if "u \<in> set us" for u
  proof -
    have "tmo' (user_id u) = tmo (user_id u) + expired_count u"
      unfolding tmo' by (rule check_timeouts_count[OF assms(1) that])
    then have "balance tp dl tmo' (sweep u)
        = balance tp dl (tmo(user_id u := tmo (user_id u) + expired_count u)) (sweep u)"
      by (simp add: balance_def sweep_def)
    then show ?thesis by (simp only: sweep_balance)
  qed
  then have "map (balance tp dl tmo') us' = map (balance tp dl tmo) us"
    by (simp add: us')
  moreover have "map static us' = map static us"
    by (simp add: us' static_def sweep_def comp_def)
  ultimately show ?thesis by blast
qed

lemma update_channels_balance:
  "update_channels R us g = (us', g') \<Longrightarrow>
     map static us' = map static us \<and> map packets us' = map packets us
     \<and> map (balance tp dl tmo) us' = map (balance tp dl tmo) us"
proof (induction us arbitrary: g us' g')
  case Nil
  then show ?case by simp
next
  case (Cons u us)
  obtain z g1 where z: "np_normal R 0 2 g = (z, g1)" by (cases "np_normal R 0 2 g")
  obtain us1 g2 where rec: "update_channels R us g1 = (us1, g2)"
    by (cases "update_channels R us g1")
  from Cons.prems z rec
  have "us' = u\<lparr>instantaneous_rate := max 1 (instantaneous_rate u + z)\<rparr> # us1" by simp
  with Cons.IH[OF rec] show ?case by (simp add: static_def balance_def)
qed

lemma static_distinct:
  "map static us' = map static us \<Longrightarrow> distinct (map user_id us) \<Longrightarrow> distinct (map user_id us')"
  using static_user_id[of us' us] by simp

lemma das_slot_balance:
  assumes "distinct (map user_id (users s))"
  shows "map static (users (das_slot R beta s)) = map static (users s)
     \<and> map (state_balance (das_slot R beta s)) (users (das_slot R beta s))
         = map (state_balance s) (users s)"
proof -
  obtain us1 tp g1 where gp: "generate_packets R (users s) (total_packets s) (rng s) = (us1, tp, g1)"
    by (cases "generate_packets R (users s) (total_packets s) (rng s)")
  obtain us2 dl tx where sv: "select_and_serve beta (age_packets us1) (delays s) = (us2, dl, tx)"
    by (cases "select_and_serve beta (age_packets us1) (delays s)")
  obtain us3 tmo where ct: "check_timeouts us2 (timeouts s) = (us3, tmo)"
    by (cases "check_timeouts us2 (timeouts s)")
  obtain us4 g2 where uc: "update_channels R us3 g1 = (us4, g2)"
    by (cases "update_channels R us3 g1")
  have s': "das_slot R beta s =
      \<lparr>users = us4, timeouts = tmo, total_packets = tp, delays = dl,
       throughput_history = throughput_history s @ [tx], rng = g2\<rparr>"
    by (simp add: das_slot_def gp sv ct uc)
  note a = generate_packets_balance[OF assms gp, of "delays s" "timeouts s"]
  note b = age_packets_balance[of us1 tp "delays s" "timeouts s"]
  have d1: "distinct (map user_id (age_packets us1))"
    using static_distinct[OF _ static_distinct[OF _ assms]] a b by blast
  note c = select_and_serve_balance[OF d1 sv, of tp "timeouts s"]
  have d2: "distinct (map user_id us2)" using static_distinct[OF _ d1] c by blast
  note d = check_timeouts_balance[OF d2 ct, of tp dl]
  note e = update_channels_balance[OF uc, of tp dl tmo]
  have "map static us4 = map static (users s)" using a b c d e by simp
  moreover have "map (balance tp dl tmo) us4
      = map (balance (total_packets s) (delays s) (timeouts s)) (users s)"
    using a b c d e by simp
  ultimately show ?thesis by (simp add: s' state_balance_def cong: map_cong)
qed

lemma das_run_balance:
  assumes "distinct (map user_id (users s))"
  shows "map static (users (das_run R beta n s)) = map static (users s)
     \<and> map (state_balance (das_run R beta n s)) (users (das_run R beta n s))
         = map (state_balance s) (users s)"
proof (induction n)
  case 0
  then show ?case by simp
next
  case (Suc n)
  then have "distinct (map user_id (users (das_run R beta n s)))"
    using static_distinct[OF _ assms] by blast
  from das_slot_balance[OF this, of R beta] Suc show ?case by simp
qed

lemma init_users_ids:
  "init_users R is g = (us, g') \<Longrightarrow>
     map user_id us = is \<and> list_all (\<lambda>u. packets u = []) us"
proof (induction "is" arbitrary: g us g')
  case Nil
  then show ?case by simp
next
  case (Cons i "is")
  obtain r g1 where r: "np_uniform R 5 20 g = (r, g1)" by (cases "np_uniform R 5 20 g")
  obtain us1 g2 where rec: "init_users R is g1 = (us1, g2)" by (cases "init_users R is g1")
  from Cons.prems r rec have "us = new_user i r # us1" by simp
  with Cons.IH[OF rec] show ?case by (simp add: new_user_def)
qed

lemma das_init_users:
  "map user_id (users (das_init R num_users g)) = [0..num_users - 1]"
  "list_all (\<lambda>u. state_balance (das_init R num_users g) u = 0) (users (das_init R num_users g))"
proof -
  obtain us g' where i: "init_users R [0..num_users - 1] g = (us, g')"
    by (cases "init_users R [0..num_users - 1] g")
  then have u: "users (das_init R num_users g) = us" by (simp add: das_init_def)
  note h = init_users_ids[OF i]
  show "map user_id (users (das_init R num_users g)) = [0..num_users - 1]"
    using h u by simp
  have "list_all (\<lambda>u. packets u = []) us" using h by simp
  then show "list_all (\<lambda>u. state_balance (das_init R num_users g) u = 0)
      (users (das_init R num_users g))"
    unfolding u by (simp add: list_all_iff state_balance_def balance_def das_init_def i)
qed

lemma das_init_distinct: "distinct (map user_id (users (das_init R num_users g)))"
  by (simp add: das_init_users(1))

lemma map_eq_nth: "map f xs = map h ys \<Longrightarrow> i < length ys \<Longrightarrow> f (xs ! i) = h (ys ! i)"
proof -
  assume a: "map f xs = map h ys" and i: "i < length ys"
  have l: "length xs = length ys" using a by (rule map_eq_imp_length_eq)
  have "map f xs ! i = map h ys ! i" using a by simp
  then show ?thesis using i l by simp
qed

lemma das_reachable_balance:
  "list_all (\<lambda>u. state_balance (das_run R beta t (das_init R num_users g)) u = 0)
     (users (das_run R beta t (das_init R num_users g)))"
proof -
  let ?init = "das_init R num_users g"
  let ?s = "das_run R beta t ?init"
  have eq: "map (state_balance ?s) (users ?s) = map (state_balance ?init) (users ?init)"
    by (rule conjunct2[OF das_run_balance[OF das_init_distinct]])
  have z: "list_all (\<lambda>v. v = 0) (map (state_balance ?init) (users ?init))"
    using das_init_users(2)[of R num_users g] by (simp add: list_all_iff)
  have "list_all (\<lambda>v. v = 0) (map (state_balance ?s) (users ?s))"
    by (simp only: eq z)
  then show ?thesis by (simp add: list_all_iff)
qed

lemma das_reachable_distinct:
  "distinct (map user_id (users (das_run R beta t (das_init R num_users g))))"
proof -
  let ?init = "das_init R num_users g"
  have "map static (users (das_run R beta t ?init)) = map static (users ?init)"
    by (rule conjunct1[OF das_run_balance[OF das_init_distinct]])
  then show ?thesis by (rule static_distinct[OF _ das_init_distinct])
qed

lemma select_and_serve_None:
  "served_index beta us = None \<Longrightarrow> select_and_serve beta us dl = (us, dl, 0)"
  by (auto simp: served_index_def select_and_serve_def Let_def
      split: option.splits if_splits list.splits)

lemma select_and_serve_Some:
  assumes "served_index beta us = Some i"
  shows "i < length us" and "packets (us ! i) \<noteq> []"
    and "select_and_serve beta us dl =
           (us[i := serve_head (us ! i) (hd (packets (us ! i))) (tl (packets (us ! i)))],
            dl(user_id (us ! i) := dl (user_id (us ! i))
                 @ [pdb (us ! i) - remaining_time (hd (packets (us ! i)))]),
            pkt_size (hd (packets (us ! i))))"
proof -
  from assms obtain k where k: "select_user_id (compute_priorities beta us) = Some k"
    and fi: "find_user k us = Some i" and ne: "packets (us ! i) \<noteq> []"
    by (auto simp: served_index_def split: option.splits if_splits)
  from find_user_Some[OF fi] show "i < length us" by simp
  from find_user_Some[OF fi] have ki: "user_id (us ! i) = k" by simp
  show "packets (us ! i) \<noteq> []" by (rule ne)
  from ne obtain p ps where pp: "packets (us ! i) = p # ps" by (cases "packets (us ! i)") auto
  show "select_and_serve beta us dl =
           (us[i := serve_head (us ! i) (hd (packets (us ! i))) (tl (packets (us ! i)))],
            dl(user_id (us ! i) := dl (user_id (us ! i))
                 @ [pdb (us ! i) - remaining_time (hd (packets (us ! i)))]),
            pkt_size (hd (packets (us ! i))))"
    by (simp add: select_and_serve_def k fi pp ki serve_head_def Let_def)
qed

lemma sweep_effect:
  assumes "distinct (map user_id us2)" and "j < length us2"
    and "check_timeouts us2 tmo = (us3, tmo')" and "update_channels R us3 g = (us4, g')"
  shows "packets (us4 ! j) = filter (\<lambda>p. 0 < remaining_time p) (packets (us2 ! j))"
    and "tmo' (user_id (us2 ! j))
           = tmo (user_id (us2 ! j))
             + length (filter (\<lambda>p. remaining_time p \<le> 0) (packets (us2 ! j)))"
proof -
  have us3: "us3 = map sweep us2" using check_timeouts_users[of us2 tmo] assms(3) by simp
  have "map packets us4 = map packets us3" using update_channels_balance[OF assms(4)] by blast
  then have "packets (us4 ! j) = packets (us3 ! j)"
    using map_eq_nth[of packets us4 packets us3 j] assms(2) us3 by simp
  then show "packets (us4 ! j) = filter (\<lambda>p. 0 < remaining_time p) (packets (us2 ! j))"
    using assms(2) by (simp add: us3 sweep_def)
  have "us2 ! j \<in> set us2" using assms(2) by simp
  from check_timeouts_count[OF assms(1) this, of tmo] assms(3)
  show "tmo' (user_id (us2 ! j))
           = tmo (user_id (us2 ! j))
             + length (filter (\<lambda>p. remaining_time p \<le> 0) (packets (us2 ! j)))"
    by (simp add: expired_count_def)
qed

lemma das_slot_queue_effect:
  fixes R :: "'g np_random" and s :: "'g das_state" and beta :: real and j :: nat
  assumes d: "distinct (map user_id (users s))" and j: "j < length (users s)"
  defines "s' \<equiv> das_slot R beta s"
  defines "q \<equiv> packets (aged_users R s ! j)"
  defines "k \<equiv> user_id (users s ! j)"
  defines "served \<equiv> (served_index beta (aged_users R s) = Some j)"
  defines "rest \<equiv> (if served then tl q else q)"
  shows "packets (users s' ! j) = filter (\<lambda>p. 0 < remaining_time p) rest"
    and "timeouts s' k = timeouts s k + length (filter (\<lambda>p. remaining_time p \<le> 0) rest)"
    and "delays s' k
           = delays s k @ (if served then [pdb (users s ! j) - remaining_time (hd q)] else [])"
    and "served \<Longrightarrow> q \<noteq> [] \<and> throughput_history s' = throughput_history s @ [pkt_size (hd q)]"
    and "served_index beta (aged_users R s) = None
           \<Longrightarrow> throughput_history s' = throughput_history s @ [0]"
proof -
  obtain us1 tp g1 where gp: "generate_packets R (users s) (total_packets s) (rng s) = (us1, tp, g1)"
    by (cases "generate_packets R (users s) (total_packets s) (rng s)")
  let ?ag = "age_packets us1"
  have ag: "aged_users R s = ?ag" by (simp add: aged_users_def gp)
  obtain us2 dl tx where sv: "select_and_serve beta ?ag (delays s) = (us2, dl, tx)"
    by (cases "select_and_serve beta ?ag (delays s)")
  obtain us3 tmo where ct: "check_timeouts us2 (timeouts s) = (us3, tmo)"
    by (cases "check_timeouts us2 (timeouts s)")
  obtain us4 g2 where uc: "update_channels R us3 g1 = (us4, g2)"
    by (cases "update_channels R us3 g1")
  have s'eq: "s' =
      \<lparr>users = us4, timeouts = tmo, total_packets = tp, delays = dl,
       throughput_history = throughput_history s @ [tx], rng = g2\<rparr>"
    by (simp add: s'_def das_slot_def gp sv ct uc)
  have st_ag: "map static ?ag = map static (users s)"
    using generate_packets_balance[OF d gp] age_packets_balance[of us1] by simp
  have d1: "distinct (map user_id ?ag)" by (rule static_distinct[OF st_ag d])
  have st2: "map static us2 = map static ?ag"
    using select_and_serve_balance[OF d1 sv] by blast
  have d2: "distinct (map user_id us2)" by (rule static_distinct[OF st2 d1])
  have l_ag: "length ?ag = length (users s)" using st_ag by (rule map_eq_imp_length_eq)
  have l2: "length us2 = length (users s)"
    using map_eq_imp_length_eq[OF st2] l_ag by simp
  have j2: "j < length us2" using j l2 by simp
  have jag: "j < length ?ag" using j l_ag by simp
  have stj: "static (?ag ! j) = static (users s ! j)" using map_eq_nth[OF st_ag j] .
  then have kag: "user_id (?ag ! j) = k" and pdbj: "pdb (?ag ! j) = pdb (users s ! j)"
    by (simp_all add: static_def k_def)
  have "static (us2 ! j) = static (?ag ! j)" using map_eq_nth[OF st2 jag] .
  then have k2: "user_id (us2 ! j) = k" using kag by (simp add: static_def)
  note sw = sweep_effect[OF d2 j2 ct uc]
  have core: "packets (us2 ! j) = rest
      \<and> dl k = delays s k @ (if served then [pdb (users s ! j) - remaining_time (hd q)] else [])
      \<and> (served \<longrightarrow> q \<noteq> [] \<and> tx = pkt_size (hd q))
      \<and> (served_index beta ?ag = None \<longrightarrow> tx = 0)"
  proof (cases "served_index beta ?ag")
    case None
    from select_and_serve_None[OF None, of "delays s"] sv
    have "us2 = ?ag" "dl = delays s" "tx = 0" by simp_all
    with None show ?thesis by (simp add: served_def rest_def q_def ag)
  next
    case (Some i)
    note ss = select_and_serve_Some[OF Some]
    from ss(3)[of "delays s"] sv
    have e: "us2 = ?ag[i := serve_head (?ag ! i) (hd (packets (?ag ! i))) (tl (packets (?ag ! i)))]"
      "dl = (delays s)(user_id (?ag ! i) := delays s (user_id (?ag ! i))
                 @ [pdb (?ag ! i) - remaining_time (hd (packets (?ag ! i)))])"
      "tx = pkt_size (hd (packets (?ag ! i)))" by simp_all
    show ?thesis
    proof (cases "i = j")
      case True
      then have sv': "served" using Some by (simp add: served_def ag)
      from True ss(1,2) e kag pdbj show ?thesis
        by (simp add: sv' rest_def q_def ag serve_head_def Some)
    next
      case False
      then have ns: "\<not> served" using Some by (simp add: served_def ag)
      have "user_id (?ag ! j) \<noteq> user_id (?ag ! i)"
        using nth_eq_iff_index_eq[of "map user_id ?ag" j i] d1 jag ss(1) False by simp
      with False e kag ns Some show ?thesis
        by (simp add: rest_def q_def ag)
    qed
  qed
  show "packets (users s' ! j) = filter (\<lambda>p. 0 < remaining_time p) rest"
    using sw(1) core by (simp add: s'eq)
  show "timeouts s' k = timeouts s k + length (filter (\<lambda>p. remaining_time p \<le> 0) rest)"
    using sw(2) core k2 by (simp add: s'eq)
  show "delays s' k
           = delays s k @ (if served then [pdb (users s ! j) - remaining_time (hd q)] else [])"
    using core by (simp add: s'eq)
  show "served \<Longrightarrow> q \<noteq> [] \<and> throughput_history s' = throughput_history s @ [pkt_size (hd q)]"
    using core by (simp add: s'eq)
  show "served_index beta (aged_users R s) = None
           \<Longrightarrow> throughput_history s' = throughput_history s @ [0]"
    using core by (simp add: s'eq ag)
qed

lemma generate_packets_effect:
  assumes "distinct (map user_id us)" and "generate_packets R us tp g = (us', tp', g')"
  shows "list_all2 (\<lambda>u u'. \<exists>new. packets u' = packets u @ new
            \<and> tp' (user_id u) = tp (user_id u) + length new
            \<and> list_all (\<lambda>p. remaining_time p = pdb u) new) us us'"
  using assms
proof (induction us arbitrary: tp g us' tp' g')
  case Nil
  then show ?case by simp
next
  case (Cons u us)
  let ?P = "\<lambda>a b u u'. \<exists>new. packets u' = packets u @ new
            \<and> b (user_id u) = a (user_id u) + length new
            \<and> list_all (\<lambda>p. remaining_time p = pdb u) new"
  have d: "distinct (map user_id us)" and nu: "user_id u \<notin> user_id ` set us"
    using Cons.prems(1) by simp_all
  obtain r g1 where r: "np_rand R g = (r, g1)" by (cases "np_rand R g")
  show ?case
  proof (cases "r < 0.3")
    case True
    obtain sz g2 where z: "np_uniform R 1 5 g1 = (sz, g2)" by (cases "np_uniform R 1 5 g1")
    let ?tp = "tp(user_id u := tp (user_id u) + 1)"
    let ?pk = "\<lparr>remaining_time = pdb u, pkt_size = sz\<rparr>"
    let ?u = "u\<lparr>packets := packets u @ [?pk]\<rparr>"
    obtain us1 tp1 g3 where rec: "generate_packets R us ?tp g2 = (us1, tp1, g3)"
      by (cases "generate_packets R us ?tp g2")
    from Cons.prems(2) r True z rec have eq: "us' = ?u # us1" "tp' = tp1" by simp_all
    have h: "tp1 (user_id u) = tp (user_id u) + 1"
      using generate_packets_other[OF rec nu] by simp
    have "list_all2 (?P ?tp tp1) us us1" by (rule Cons.IH[OF d rec])
    then have t: "list_all2 (?P tp tp1) us us1"
    proof (rule list.rel_mono_strong)
      fix x y :: User
      assume "x \<in> set us" and p: "?P ?tp tp1 x y"
      then have "user_id x \<noteq> user_id u" using nu by (auto simp: image_iff)
      with p show "?P tp tp1 x y" by simp
    qed
    have "packets ?u = packets u @ [?pk] \<and> tp1 (user_id u) = tp (user_id u) + length [?pk]
        \<and> list_all (\<lambda>p. remaining_time p = pdb u) [?pk]" using h by simp
    then have "?P tp tp1 u ?u" by blast
    with t show ?thesis unfolding eq by simp
  next
    case False
    obtain us1 tp1 g3 where rec: "generate_packets R us tp g1 = (us1, tp1, g3)"
      by (cases "generate_packets R us tp g1")
    from Cons.prems(2) r False rec have eq: "us' = u # us1" "tp' = tp1" by simp_all
    have h: "tp1 (user_id u) = tp (user_id u)" using generate_packets_other[OF rec nu] .
    have t: "list_all2 (?P tp tp1) us us1" by (rule Cons.IH[OF d rec])
    have "packets u = packets u @ [] \<and> tp1 (user_id u) = tp (user_id u) + length ([]::packet list)
        \<and> list_all (\<lambda>p. remaining_time p = pdb u) []" using h by simp
    then have "?P tp tp1 u u" by blast
    with t show ?thesis unfolding eq by simp
  qed
qed

lemma aged_users_effect:
  fixes R :: "'g np_random" and s :: "'g das_state"
  assumes "distinct (map user_id (users s))" and "j < length (users s)"
  shows "\<exists>new. packets (aged_users R s ! j) = map age (packets (users s ! j) @ new)
           \<and> total_packets (das_slot R beta s) (user_id (users s ! j))
               = total_packets s (user_id (users s ! j)) + length new
           \<and> list_all (\<lambda>p. remaining_time p = pdb (users s ! j)) new"
proof -
  obtain us1 tp g1 where gp: "generate_packets R (users s) (total_packets s) (rng s) = (us1, tp, g1)"
    by (cases "generate_packets R (users s) (total_packets s) (rng s)")
  have tp: "total_packets (das_slot R beta s) = tp"
    by (simp add: das_slot_def gp split: prod.splits)
  note e = generate_packets_effect[OF assms(1) gp]
  have l: "length us1 = length (users s)" using e by (simp add: list_all2_lengthD)
  from list_all2_nthD[OF e assms(2)] obtain new
    where n: "packets (us1 ! j) = packets (users s ! j) @ new"
      "tp (user_id (users s ! j)) = total_packets s (user_id (users s ! j)) + length new"
      "list_all (\<lambda>p. remaining_time p = pdb (users s ! j)) new" by blast
  have "packets (aged_users R s ! j) = map age (packets (us1 ! j))"
    using assms(2) l by (simp add: aged_users_def gp age_packets_def age_def)
  with n tp show ?thesis by auto
qed

lemma das_reachable_length:
  "length (users (das_run R beta t (das_init R num_users g))) = nat num_users"
proof -
  let ?init = "das_init R num_users g"
  have "map static (users (das_run R beta t ?init)) = map static (users ?init)"
    by (rule conjunct1[OF das_run_balance[OF das_init_distinct]])
  then have "length (users (das_run R beta t ?init)) = length (users ?init)"
    by (rule map_eq_imp_length_eq)
  also have "\<dots> = length (map user_id (users ?init))" by simp
  also have "\<dots> = nat num_users" by (simp only: das_init_users(1)) simp
  finally show ?thesis .
qed

text \<open>C7: in every slot of a run of \<^verbatim>\<open>simulate_das\<close> and for every user, the queue length at
  the end of the slot is the queue length at its start, plus the user's arrivals in the slot
  (the increase of \<^verbatim>\<open>total_packets\<close>), minus the user's transmissions in the slot (the
  increase of the number of recorded delays, 0 or 1), minus the user's timeouts counted in
  the slot (the increase of \<^verbatim>\<open>timeouts\<close>).\<close>

theorem packet_conservation:
  fixes R :: "'g np_random" and beta :: real and t :: nat and num_users :: int and g :: 'g
    and i :: nat
  defines "s \<equiv> das_run R beta t (das_init R num_users g)"
  defines "s' \<equiv> das_slot R beta s"
  defines "k \<equiv> user_id (users s ! i)"
  assumes i: "i < length (users s)"
  shows "length (users s') = length (users s) \<and> user_id (users s' ! i) = k
     \<and> int (length (packets (users s' ! i)))
         = int (length (packets (users s ! i)))
           + (int (total_packets s' k) - int (total_packets s k))
           - (int (length (delays s' k)) - int (length (delays s k)))
           - (int (timeouts s' k) - int (timeouts s k))
     \<and> total_packets s k \<le> total_packets s' k \<and> timeouts s k \<le> timeouts s' k
     \<and> (delays s' k = delays s k \<or> (\<exists>d. delays s' k = delays s k @ [d]))"
proof -
  have d: "distinct (map user_id (users s))" unfolding s_def by (rule das_reachable_distinct)
  note b = das_slot_balance[OF d, where R = R and beta = beta, folded s'_def]
  have st: "map static (users s') = map static (users s)" using b by blast
  have bl: "map (state_balance s') (users s') = map (state_balance s) (users s)" using b by blast
  have l: "length (users s') = length (users s)" using st by (rule map_eq_imp_length_eq)
  have "static (users s' ! i) = static (users s ! i)" using map_eq_nth[OF st i] .
  then have k': "user_id (users s' ! i) = k" by (simp add: static_def k_def)
  have "state_balance s' (users s' ! i) = state_balance s (users s ! i)"
    using map_eq_nth[OF bl i] .
  then have eq: "int (length (packets (users s' ! i)))
         = int (length (packets (users s ! i)))
           + (int (total_packets s' k) - int (total_packets s k))
           - (int (length (delays s' k)) - int (length (delays s k)))
           - (int (timeouts s' k) - int (timeouts s k))"
    unfolding state_balance_def balance_def k' unfolding k_def[symmetric] by linarith
  from aged_users_effect[OF d i, where R = R and beta = beta] have tp: "total_packets s k \<le> total_packets s' k"
    unfolding s'_def k_def by auto
  note q = das_slot_queue_effect[OF d i, where R = R and beta = beta, folded s'_def k_def]
  have tm: "timeouts s k \<le> timeouts s' k" using q(2) by simp
  have dl: "delays s' k = delays s k \<or> (\<exists>d. delays s' k = delays s k @ [d])"
    using q(3) by (cases "served_index beta (aged_users R s) = Some i") simp_all
  from l k' eq tp tm dl show ?thesis by blast
qed

theorem packet_conservation_witness:
  "(1::nat) < length (users (das_run counting_rng 0.7 1 (das_init counting_rng 2 0)))
   \<and> (let s = das_run counting_rng 0.7 1 (das_init counting_rng 2 0);
           s' = das_slot counting_rng 0.7 s;
           k = user_id (users s ! 1)
       in int (length (packets (users s' ! 1)))
            = int (length (packets (users s ! 1)))
              + (int (total_packets s' k) - int (total_packets s k))
              - (int (length (delays s' k)) - int (length (delays s k)))
              - (int (timeouts s' k) - int (timeouts s k)))"
proof -
  have h: "(1::nat) < length (users (das_run counting_rng 0.7 1 (das_init counting_rng 2 0)))"
    unfolding das_reachable_length by simp
  from packet_conservation[OF h] h show ?thesis unfolding Let_def by blast
qed

subsection \<open>DAS: where the packets of a queue go\<close>

text \<open>C9, as the code has it.  At every slot boundary a user's arrivals are its queued
  packets plus its recorded transmissions plus its counted timeouts.  In a slot, the queue
  that the selection sees is the old queue and the slot's arrival, aged; if the user is the
  one served, the head of that queue is transmitted (its delay recorded, its size that
  slot's throughput) and is not part of the sweep; of the remaining packets the sweep counts
  those with \<open>remaining_time \<le> 0\<close> as timeouts and keeps the others.  So a packet leaves its
  queue at most once and is then accounted exactly once, and a head packet whose
  \<open>remaining_time\<close> is already \<open>\<le> 0\<close> when its user is selected is transmitted, with a
  delay of at least the PDB, rather than timed out.  A packet still queued when the run
  ends is never removed.\<close>

theorem packet_accounting:
  fixes R :: "'g np_random" and beta :: real and t :: nat and num_users :: int and g :: 'g
    and j :: nat
  defines "s \<equiv> das_run R beta t (das_init R num_users g)"
  defines "s' \<equiv> das_slot R beta s"
  defines "k \<equiv> user_id (users s ! j)"
  defines "q \<equiv> packets (aged_users R s ! j)"
  defines "served \<equiv> (served_index beta (aged_users R s) = Some j)"
  defines "rest \<equiv> (if served then tl q else q)"
  assumes j: "j < length (users s)"
  shows "total_packets s k = length (packets (users s ! j)) + length (delays s k) + timeouts s k
     \<and> (\<exists>new. q = map age (packets (users s ! j) @ new)
            \<and> total_packets s' k = total_packets s k + length new)
     \<and> packets (users s' ! j) = filter (\<lambda>p. 0 < remaining_time p) rest
     \<and> timeouts s' k = timeouts s k + length (filter (\<lambda>p. remaining_time p \<le> 0) rest)
     \<and> delays s' k
         = delays s k @ (if served then [pdb (users s ! j) - remaining_time (hd q)] else [])
     \<and> (served \<longrightarrow> q \<noteq> [] \<and> throughput_history s' = throughput_history s @ [pkt_size (hd q)])
     \<and> (served \<and> remaining_time (hd q) \<le> 0
          \<longrightarrow> pdb (users s ! j) \<le> pdb (users s ! j) - remaining_time (hd q))"
proof -
  have d: "distinct (map user_id (users s))" unfolding s_def by (rule das_reachable_distinct)
  have "list_all (\<lambda>u. state_balance s u = 0) (users s)"
    unfolding s_def by (rule das_reachable_balance)
  then have "state_balance s (users s ! j) = 0" using j by (simp add: list_all_length)
  then have inv: "total_packets s k
      = length (packets (users s ! j)) + length (delays s k) + timeouts s k"
    unfolding state_balance_def balance_def k_def by linarith
  from aged_users_effect[OF d j, where R = R and beta = beta]
  have ar: "\<exists>new. q = map age (packets (users s ! j) @ new)
            \<and> total_packets s' k = total_packets s k + length new"
    unfolding q_def s'_def k_def by blast
  note e = das_slot_queue_effect[OF d j, where R = R and beta = beta,
      folded s'_def k_def q_def served_def, folded rest_def]
  have "served \<longrightarrow> q \<noteq> [] \<and> throughput_history s' = throughput_history s @ [pkt_size (hd q)]"
    using e(4) by blast
  with inv ar e(1,2,3) show ?thesis by simp
qed

theorem packet_accounting_witness:
  "(1::nat) < length (users late_state)
   \<and> served_index 0 (aged_users scripted_rng late_state) = Some 1
   \<and> remaining_time (hd (packets (aged_users scripted_rng late_state ! 1))) \<le> 0
   \<and> delays (das_slot scripted_rng 0 late_state) 1 = delays late_state 1 @ [5]
   \<and> timeouts (das_slot scripted_rng 0 late_state) 1 = timeouts late_state 1
   \<and> throughput_history (das_slot scripted_rng 0 late_state)
       = throughput_history late_state @ [1]"
proof -
  let ?s = "das_run scripted_rng 0 4 (das_init scripted_rng 2 0)"
  have h: "(1::nat) < length (users ?s)" unfolding das_reachable_length by simp
  have e1: "served_index 0 (aged_users scripted_rng ?s) = Some 1" by code_simp
  have e2: "packets (aged_users scripted_rng ?s ! 1) = [\<lparr>remaining_time = 0, pkt_size = 1\<rparr>]"
    by code_simp
  have e3: "user_id (users ?s ! 1) = 1" "pdb (users ?s ! 1) = 5" by code_simp+
  from packet_accounting[OF h] e1 e2 e3 h show ?thesis unfolding late_state_def by simp
qed

text \<open>C9 as stated fails: after a one-slot run with two users, both of which receive a
  packet, user 1's packet is still in its queue; it has been neither transmitted nor
  counted as a timeout.\<close>

theorem queued_packet_never_removed:
  "total_packets leftover_state 1 = 1
   \<and> map (\<lambda>u. length (packets u)) (users leftover_state) = [0, 1]
   \<and> delays leftover_state 1 = [] \<and> timeouts leftover_state 1 = 0
   \<and> total_packets leftover_state 1 \<noteq> length (delays leftover_state 1) + timeouts leftover_state 1"
  by code_simp

subsection \<open>Rates\<close>

lemma sum_list_mono_nat:
  fixes f h :: "'a \<Rightarrow> nat"
  shows "(\<And>x. x \<in> set xs \<Longrightarrow> f x \<le> h x) \<Longrightarrow> sum_list (map f xs) \<le> sum_list (map h xs)"
  by (induction xs) (simp_all add: add_mono)

lemma das_timeout_rate_range:
  "0 \<le> urllc_timeout_rate (fst (simulate_das R beta num_slots num_users seed g))
   \<and> urllc_timeout_rate (fst (simulate_das R beta num_slots num_users seed g)) \<le> 100"
proof -
  define g0 where "g0 = (case seed of None \<Rightarrow> g | Some sd \<Rightarrow> np_seed R sd)"
  define s where "s = das_run R beta (nat num_slots) (das_init R num_users g0)"
  let ?uu = "urllc_users (users s)"
  have b: "list_all (\<lambda>u. state_balance s u = 0) (users s)"
    unfolding s_def by (rule das_reachable_balance)
  have "timeouts s (user_id u) \<le> total_packets s (user_id u)" if "u \<in> set ?uu" for u
  proof -
    from that have "u \<in> set (users s)" by (simp add: urllc_users_def)
    with b have "state_balance s u = 0" by (simp add: list_all_iff)
    then show ?thesis unfolding state_balance_def balance_def by linarith
  qed
  then have "sum_list (map (\<lambda>u. timeouts s (user_id u)) ?uu)
      \<le> sum_list (map (\<lambda>u. total_packets s (user_id u)) ?uu)"
    by (rule sum_list_mono_nat)
  then have le: "sum_list (map (\<lambda>u. timeouts s (user_id u)) ?uu)
      \<le> max (sum_list (map (\<lambda>u. total_packets s (user_id u)) ?uu)) 1" by simp
  have pos: "0 < max (sum_list (map (\<lambda>u. total_packets s (user_id u)) ?uu)) 1" by simp
  have "urllc_timeout_rate (fst (simulate_das R beta num_slots num_users seed g))
      = real (sum_list (map (\<lambda>u. timeouts s (user_id u)) ?uu))
          / real (max (sum_list (map (\<lambda>u. total_packets s (user_id u)) ?uu)) 1) * 100"
    by (simp add: simulate_das_def das_finish_def Let_def s_def g0_def)
  with percent_range[OF le pos] show ?thesis by simp
qed

lemma sum_list_bounds:
  fixes xs :: "real list"
  assumes "list_all (\<lambda>x. lo \<le> x \<and> x \<le> hi) xs"
  shows "lo * real (length xs) \<le> sum_list xs \<and> sum_list xs \<le> hi * real (length xs)"
  using assms by (induction xs) (auto simp: algebra_simps)

lemma mean_range:
  assumes "xs \<noteq> []" and "list_all (\<lambda>x. lo \<le> x \<and> x \<le> hi) xs"
  shows "lo \<le> mean xs \<and> mean xs \<le> hi"
proof -
  have p: "0 < real (length xs)" using assms(1) by simp
  from sum_list_bounds[OF assms(2)] p show ?thesis
    unfolding mean_def by (simp add: pos_le_divide_eq pos_divide_le_eq)
qed

lemma np_mean_range:
  assumes "xs \<noteq> []" and "list_all (\<lambda>x. 0 \<le> x \<and> x \<le> 100) xs"
  shows "in_percent_range (np_mean xs)"
  using mean_range[OF assms] assms(1) by (simp add: np_mean_def)

lemma csi_run_rates:
  "csi_run R alpha n s0 = Inr s \<Longrightarrow> list_all (\<lambda>x. 0 \<le> x \<and> x \<le> 100) (retransmission_rates s0)
     \<Longrightarrow> list_all (\<lambda>x. 0 \<le> x \<and> x \<le> 100) (retransmission_rates s)
        \<and> length (retransmission_rates s) = length (retransmission_rates s0) + n"
proof (induction n arbitrary: s)
  case 0
  then show ?case by simp
next
  case (Suc n)
  from Suc.prems(1) obtain s1 where r: "csi_run R alpha n s0 = Inr s1"
    and sl: "csi_slot R alpha s1 = Inr s" by (auto split: sum.splits)
  note ih = Suc.IH[OF r Suc.prems(2)]
  have e: "retransmission_rates s = retransmission_rates s1 @ [retrans_rate (csi_users s)]"
    by (rule csi_slot_step(3)[OF sl])
  show ?case unfolding e using ih retrans_rate_range[of "csi_users s"] by simp
qed

lemma csi_retransmission_rate_range:
  assumes "simulate_csi_smoothing R alpha num_slots num_users g = Inr (r, g')"
    and "0 < num_slots"
  shows "in_percent_range (csi_retransmission_rate r)"
proof -
  from assms(1) obtain s where s: "csi_run R alpha (nat num_slots) (csi_init num_users g) = Inr s"
    and r: "r = csi_finish s"
    by (auto simp: simulate_csi_smoothing_def split: sum.splits)
  have i: "list_all (\<lambda>x. 0 \<le> x \<and> x \<le> 100) (retransmission_rates (csi_init num_users g))"
    by (simp add: csi_init_def)
  note h = csi_run_rates[OF s i]
  have "length (retransmission_rates s) = nat num_slots" using h by (simp add: csi_init_def)
  then have ne: "retransmission_rates s \<noteq> []" using assms(2) by auto
  have "in_percent_range (np_mean (retransmission_rates s))"
    by (rule np_mean_range[OF ne conjunct1[OF h]])
  then show ?thesis by (simp add: r csi_finish_def)
qed

lemma frag_run_rates:
  assumes "fragments s0 = fragments_init" and "frag_run R c n s0 = Inr s"
    and "list_all (\<lambda>x. 0 \<le> x \<and> x \<le> 100) (utilization_history s0)"
    and "list_all (\<lambda>x. 0 \<le> x \<and> x \<le> 100) (urllc_compliance_history s0)"
  shows "list_all (\<lambda>x. 0 \<le> x \<and> x \<le> 100) (utilization_history s)
     \<and> list_all (\<lambda>x. 0 \<le> x \<and> x \<le> 100) (urllc_compliance_history s)"
  using assms(2)
proof (induction n arbitrary: s)
  case 0
  with assms(3,4) show ?case by simp
next
  case (Suc n)
  from Suc.prems obtain s1 where r: "frag_run R c n s0 = Inr s1"
    and sl: "frag_slot R c s1 = Inr s" by (auto split: sum.splits)
  have f1: "fragments s1 = fragments_init" by (rule frag_run_fragments[OF assms(1) r])
  from sl obtain us fs g1 where al: "frag_allocation R c s1 = Inr (us, fs, g1)"
    and u: "utilization_history s = utilization_history s1 @ [utilization_of us]"
    and cmp: "urllc_compliance_history s = urllc_compliance_history s1 @ [urllc_compliance_of us]"
    by (auto simp: frag_slot_def split: sum.splits prod.splits)
  note cs = frag_allocation_conserves[OF f1 al]
  have "0 \<le> real_of_int (total_allocated us) / 155" "real_of_int (total_allocated us) / 155 \<le> 1"
    using cs(2,3) by simp_all
  then have ur: "0 \<le> utilization_of us \<and> utilization_of us \<le> 100"
    unfolding utilization_of_def by (simp add: scale_percent)
  let ?uu = "filter (\<lambda>u. fu_service_type u = ''URLLC'') us"
  have "length (filter (\<lambda>u. allocated u \<ge> demand u) ?uu) \<le> max (length ?uu) 1"
    using length_filter_le[of "\<lambda>u. allocated u \<ge> demand u" ?uu] by simp
  moreover have "0 < max (length ?uu) 1" by simp
  ultimately have cr: "0 \<le> urllc_compliance_of us \<and> urllc_compliance_of us \<le> 100"
    unfolding urllc_compliance_of_def Let_def by (rule percent_range)
  from Suc.IH[OF r] ur cr show ?case unfolding u cmp by simp
qed

lemma frag_rates_range:
  assumes "simulate_fragmentation_aware R c num_slots g = Inr (r, g')"
    and "0 < num_slots"
  shows "in_percent_range (spectrum_utilization r) \<and> in_percent_range (urllc_compliance r)"
proof -
  from assms(1) obtain s where s: "frag_run R c (nat num_slots) (frag_init g) = Inr s"
    and r: "r = frag_finish s"
    by (auto simp: simulate_fragmentation_aware_def split: sum.splits)
  have f: "fragments (frag_init g) = fragments_init" by (simp add: frag_init_def)
  have h: "list_all (\<lambda>x. 0 \<le> x \<and> x \<le> 100) (utilization_history s)
     \<and> list_all (\<lambda>x. 0 \<le> x \<and> x \<le> 100) (urllc_compliance_history s)"
    by (rule frag_run_rates[OF f s]) (simp_all add: frag_init_def)
  from frag_run_lengths[OF s]
  have "length (utilization_history s) = nat num_slots"
    "length (urllc_compliance_history s) = nat num_slots" by (simp_all add: frag_init_def)
  then have ne: "utilization_history s \<noteq> []" "urllc_compliance_history s \<noteq> []"
    using assms(2) by auto
  have "in_percent_range (np_mean (utilization_history s))"
    by (rule np_mean_range[OF ne(1) conjunct1[OF h]])
  moreover have "in_percent_range (np_mean (urllc_compliance_history s))"
    by (rule np_mean_range[OF ne(2) conjunct2[OF h]])
  ultimately show ?thesis by (simp add: r frag_finish_def)
qed

text \<open>C3: the claim asks for the four rates to lie in the interval from 0 to 100 on all
  valid inputs.  That holds for \<^verbatim>\<open>simulate_das\<close> on every input and for the other two
  simulators whenever they return from at least one slot (the three lemmas above).  With
  \<open>num_slots = 0\<close>, a valid input, the unguarded means of lines 186, 308 and 310 make the
  rates of \<^verbatim>\<open>simulate_fragmentation_aware\<close> and \<^verbatim>\<open>simulate_csi_smoothing\<close> \<^verbatim>\<open>nan\<close>, which is
  not in the interval.\<close>

theorem zero_slots_rates_out_of_range:
  "(\<exists>r g'. simulate_fragmentation_aware R c 0 g = Inr (r, g')
       \<and> urllc_compliance r = NaN \<and> spectrum_utilization r = NaN
       \<and> \<not> in_percent_range (urllc_compliance r) \<and> \<not> in_percent_range (spectrum_utilization r))
   \<and> (\<exists>r g'. simulate_csi_smoothing R alpha 0 num_users g = Inr (r, g')
       \<and> csi_retransmission_rate r = NaN \<and> \<not> in_percent_range (csi_retransmission_rate r))"
  by (simp add: simulate_csi_smoothing_def csi_init_def csi_finish_def
      simulate_fragmentation_aware_def frag_init_def frag_finish_def np_mean_def)

end
